theory Spec2Isabelle
  imports Complex_Main "HOL-Library.Word" "HOL-Library.Log_Nat"
begin

chapter \<open>The SIFT MEX driver (toolbox/sift.c)\<close>

text \<open>
  The development embeds \<^verbatim>\<open>toolbox/sift.c\<close>: the descriptor transpose, the
  comparison function of the frame sort, the option checks and the octave loop of
  \<^verbatim>\<open>mexFunction\<close> with its growable output buffers. The scale-space filter
  (\<^verbatim>\<open>vl/sift.h\<close>) and the MEX helper header are not part of the sources; the filter
  is a parameter of the model (a record of operations), the few helpers are modelled
  where they are used.

  C \<^verbatim>\<open>int\<close> values are unbounded integers here: signed overflow is undefined in C and
  no statement below depends on it.
\<close>

section \<open>Floating-point values\<close>

text \<open>
  A \<^verbatim>\<open>double\<close> or \<^verbatim>\<open>float\<close> value is the real number it denotes. An arithmetic
  operation of the source computes the exact result and rounds it to the nearest value
  of the format of its type, ties to the even mantissa (IEEE 754 binary64 and binary32,
  with gradual underflow). Conversions from \<^verbatim>\<open>float\<close> to \<^verbatim>\<open>double\<close>, comparisons, the
  halving of \<^verbatim>\<open>VL_PI\<close> and the scaling of a \<^verbatim>\<open>float\<close> by 512 are exact. Infinities
  and NaN are outside the model.
\<close>

definition rne :: "real \<Rightarrow> int" where
  "rne x = (let f = \<lfloor>x\<rfloor>; r = x - of_int f
            in if r < 1 / 2 then f else if 1 / 2 < r then f + 1
               else if even f then f else f + 1)"

definition pow2 :: "int \<Rightarrow> real" where
  "pow2 e = (if 0 \<le> e then 2 ^ nat e else 1 / 2 ^ nat (- e))"

text \<open>The binary exponent of a non-zero value: the integer part of its base-2 logarithm.\<close>

definition ilog2 :: "real \<Rightarrow> int" where
  "ilog2 x = (if 1 \<le> \<bar>x\<bar> then bitlen \<lfloor>\<bar>x\<bar>\<rfloor> - 1 else - bitlen (\<lceil>1 / \<bar>x\<bar>\<rceil> - 1))"

text \<open>Rounding to a binary format with \<open>p\<close> mantissa bits and least normal exponent \<open>emin\<close>.\<close>

definition round_binary :: "nat \<Rightarrow> int \<Rightarrow> real \<Rightarrow> real" where
  "round_binary p emin x =
     (if x = 0 then 0
      else let q = pow2 (max (ilog2 x) emin - (int p - 1))
           in of_int (rne (x / q)) * q)"

definition to_double :: "real \<Rightarrow> real" where
  "to_double = round_binary 53 (- 1022)"

definition to_float :: "real \<Rightarrow> real" where
  "to_float = round_binary 24 (- 126)"

definition d_sub :: "real \<Rightarrow> real \<Rightarrow> real" where
  "d_sub a b = to_double (a - b)"

definition f_add :: "real \<Rightarrow> real \<Rightarrow> real" where
  "f_add a b = to_float (a + b)"

text \<open>
  Modelled from the spec: the macro \<^verbatim>\<open>VL_PI\<close> of \<^verbatim>\<open>vl/mathop.h\<close>, which is not among the
  sources. It is the spec's \<open>\<pi>\<close> as a \<^verbatim>\<open>double\<close> constant, that is the binary64 value
  nearest to \<open>\<pi>\<close>. \<^verbatim>\<open>VL_PI / 2\<close> is exact.
\<close>

definition VL_PI :: real where
  "VL_PI = 884279719003555 / 2 ^ 48"

text \<open>
  The conversions \<^verbatim>\<open>(int) x\<close> and \<^verbatim>\<open>(vl_uint8) x\<close> truncate towards zero. C defines
  them for the values whose integer part the target type holds; elsewhere the model
  gives the integer part for the first and reduces it modulo 256 for the second.
\<close>

definition int_of_double :: "real \<Rightarrow> int" where
  "int_of_double x = (if 0 \<le> x then \<lfloor>x\<rfloor> else \<lceil>x\<rceil>)"

definition vl_uint8_of_double :: "real \<Rightarrow> 8 word" where
  "vl_uint8_of_double x = word_of_int (int_of_double x)"

section \<open>Descriptor transpose and quantisation\<close>

definition BO :: nat where "BO = 8"
definition BP :: nat where "BP = 4"

text \<open>The innermost loop of \<^verbatim>\<open>transpose_descriptor\<close>, over \<open>t = 1, \<dots>, BO - 1\<close>.\<close>

definition transpose_bins :: "nat \<Rightarrow> nat \<Rightarrow> 'a list \<Rightarrow> 'a list \<Rightarrow> 'a list" where
  "transpose_bins ofs ofsp src dst =
     fold (\<lambda>t d. d[BO - t + ofsp := src ! (t + ofs)]) [1..<BO] dst"

text \<open>The loop over \<open>i\<close> for one value of \<open>j\<close>.\<close>

definition transpose_row :: "nat \<Rightarrow> 'a list \<Rightarrow> 'a list \<Rightarrow> 'a list" where
  "transpose_row j src dst =
     (let jp = BP - 1 - j in
      fold (\<lambda>i d.
        let ofs = BO * i + BP * BO * j;
            ofsp = BO * i + BP * BO * jp
        in transpose_bins ofs ofsp src (d[ofsp := src ! ofs])) [0..<BP] dst)"

text \<open>
  \<^verbatim>\<open>transpose_descriptor (dst, src)\<close>: the first argument is the destination buffer as it
  is before the call, the result is the buffer after it.
\<close>

definition transpose_descriptor :: "'a list \<Rightarrow> 'a list \<Rightarrow> 'a list" where
  "transpose_descriptor dst src = fold (\<lambda>j d. transpose_row j src d) [0..<BP] dst"

text \<open>Lines 355 to 357: scaling by 512, clamping above at 255, conversion to a byte.
  The product of a \<^verbatim>\<open>float\<close> by 512 is exact in \<^verbatim>\<open>double\<close>.\<close>

definition quantize :: "real \<Rightarrow> 8 word" where
  "quantize v = (let x = 512 * v; x' = (if x < 255 then x else 255)
                 in vl_uint8_of_double x')"

text \<open>The loop of lines 354 to 358, writing record \<open>n\<close> of the descriptor buffer.\<close>

definition store_descriptor :: "8 word option list \<Rightarrow> int \<Rightarrow> real list \<Rightarrow> 8 word option list" where
  "store_descriptor descr n rbuf =
     fold (\<lambda>j d. d[nat (128 * n + int j) := Some (quantize (rbuf ! j))]) [0..<128] descr"

section \<open>MATLAB arrays, the store and the options\<close>

datatype mxClassID = mxDOUBLE_CLASS | mxSINGLE_CLASS | mxUINT8_CLASS | mxOTHER_CLASS

record mxArray =
  mx_class :: mxClassID
  mx_complex :: bool
  mx_dims :: "nat list"
  mx_data :: "real list"

text \<open>
  The arrays live in a store; a pointer is an index into it, a destroyed array leaves
  \<open>None\<close> behind. \<^verbatim>\<open>mxDuplicateArray\<close> allocates a new cell.
\<close>

type_synonym store = "mxArray option list"

definition mx_at :: "store \<Rightarrow> nat \<Rightarrow> mxArray option" where
  "mx_at h p = (if p < length h then h ! p else None)"

definition mxDuplicateArray :: "store \<Rightarrow> mxArray \<Rightarrow> store \<times> nat" where
  "mxDuplicateArray h a = (h @ [Some a], length h)"

definition mxDestroyArray :: "store \<Rightarrow> nat \<Rightarrow> store" where
  "mxDestroyArray h p = h[p := None]"

definition mxGetM :: "mxArray \<Rightarrow> int" where
  "mxGetM a = (case mx_dims a of [] \<Rightarrow> 0 | m # _ \<Rightarrow> int m)"

definition mxGetN :: "mxArray \<Rightarrow> int" where
  "mxGetN a = (case mx_dims a of [] \<Rightarrow> 0 | _ # ns \<Rightarrow> int (prod_list ns))"

text \<open>
  Modelled from the spec: \<^verbatim>\<open>uIsRealScalar\<close> and \<^verbatim>\<open>uIsRealMatrix\<close> of the MEX helper
  header, which is not among the sources. The spec speaks of scalar options and of a
  frame list of 4-tuples: a real scalar is a real 1 x 1 array of doubles, a real matrix
  a real two-dimensional array of doubles with the row and column counts asked for (a
  negative count asks for nothing).
\<close>

definition uIsRealMatrix :: "mxArray \<Rightarrow> int \<Rightarrow> int \<Rightarrow> bool" where
  "uIsRealMatrix a m n \<longleftrightarrow>
     mx_class a = mxDOUBLE_CLASS \<and> \<not> mx_complex a \<and> length (mx_dims a) = 2 \<and>
     (m < 0 \<or> mxGetM a = m) \<and> (n < 0 \<or> mxGetN a = n)"

definition uIsRealScalar :: "mxArray \<Rightarrow> bool" where
  "uIsRealScalar a \<longleftrightarrow> uIsRealMatrix a 1 1"

subsection \<open>Sorting the frames\<close>

definition korder :: "real list \<Rightarrow> real list \<Rightarrow> int" where
  "korder a b = (let x = d_sub (a ! 2) (b ! 2)
                 in if x < 0 then - 1 else if 0 < x then 1 else 0)"

text \<open>
  \<^verbatim>\<open>qsort (base, nmemb, width, compar)\<close> on an array of doubles, \<open>width\<close> counted in
  doubles. The C library leaves the order of elements that compare equal open; the
  model keeps them in their input order.
\<close>

fun insert_by :: "('a \<Rightarrow> 'a \<Rightarrow> int) \<Rightarrow> 'a \<Rightarrow> 'a list \<Rightarrow> 'a list" where
  "insert_by cmp x [] = [x]"
| "insert_by cmp x (y # ys) =
     (if cmp x y \<le> 0 then x # y # ys else y # insert_by cmp x ys)"

definition sort_by :: "('a \<Rightarrow> 'a \<Rightarrow> int) \<Rightarrow> 'a list \<Rightarrow> 'a list" where
  "sort_by cmp xs = foldr (insert_by cmp) xs []"

definition qsort :: "real list \<Rightarrow> nat \<Rightarrow> nat \<Rightarrow> (real list \<Rightarrow> real list \<Rightarrow> int) \<Rightarrow> real list" where
  "qsort base nmemb width cmp =
     concat (sort_by cmp (map (\<lambda>n. take width (drop (width * n) base)) [0..<nmemb]))
       @ drop (width * nmemb) base"

subsection \<open>Options\<close>

datatype option_code =
    opt_octaves | opt_levels | opt_first_octave | opt_frames | opt_edge_thresh
  | opt_peak_thresh | opt_norm_thresh | opt_orientations | opt_verbose

datatype mex_error = MexErr string | BadPointer

record config =
  verbose :: int
  O_num :: int
  S_num :: int
  o_min :: int
  edge_thresh :: real
  peak_thresh :: real
  norm_thresh :: real
  ikeys_array :: "nat option"
  nikeys :: int
  force_orientations :: bool

text \<open>The initial values of lines 102 to 121.\<close>

definition config0 :: config where
  "config0 = \<lparr> verbose = 0, O_num = - 1, S_num = 3, o_min = 0,
               edge_thresh = - 1, peak_thresh = - 1, norm_thresh = - 1,
               ikeys_array = None, nikeys = - 1, force_orientations = False \<rparr>"

text \<open>
  One round of the \<^verbatim>\<open>switch\<close> of lines 145 to 205. The option has been recognised by
  \<^verbatim>\<open>uNextOption\<close> already: the model receives its code and the pointer to its argument
  (not looked at for the two options that take none).
\<close>

definition scalar_value :: "mxArray \<Rightarrow> real" where
  "scalar_value a = mx_data a ! 0"

definition with_optarg ::
  "store \<Rightarrow> nat \<Rightarrow> (mxArray \<Rightarrow> mex_error + store \<times> config) \<Rightarrow> mex_error + store \<times> config" where
  "with_optarg h p f = (case mx_at h p of None \<Rightarrow> Inl BadPointer | Some optarg \<Rightarrow> f optarg)"

fun set_option :: "option_code \<Rightarrow> nat \<Rightarrow> store \<Rightarrow> config \<Rightarrow> mex_error + store \<times> config" where
  "set_option opt_verbose p h c = Inr (h, c\<lparr>verbose := verbose c + 1\<rparr>)"
| "set_option opt_octaves p h c = with_optarg h p (\<lambda>optarg.
     if \<not> uIsRealScalar optarg \<or> int_of_double (scalar_value optarg) < 0
     then Inl (MexErr '''Octaves' must be a positive integer.'')
     else Inr (h, c\<lparr>O_num := int_of_double (scalar_value optarg)\<rparr>))"
| "set_option opt_levels p h c = with_optarg h p (\<lambda>optarg.
     if \<not> uIsRealScalar optarg \<or> int_of_double (scalar_value optarg) < 1
     then Inl (MexErr '''Levels' must be a positive integer.'')
     else Inr (h, c\<lparr>S_num := int_of_double (scalar_value optarg)\<rparr>))"
| "set_option opt_first_octave p h c = with_optarg h p (\<lambda>optarg.
     if \<not> uIsRealScalar optarg
     then Inl (MexErr '''FirstOctave' must be an integer'')
     else Inr (h, c\<lparr>o_min := int_of_double (scalar_value optarg)\<rparr>))"
| "set_option opt_edge_thresh p h c = with_optarg h p (\<lambda>optarg.
     if \<not> uIsRealScalar optarg \<or> scalar_value optarg < 1
     then Inl (MexErr '''EdgeThresh' must be not smaller than 1.'')
     else Inr (h, c\<lparr>edge_thresh := scalar_value optarg\<rparr>))"
| "set_option opt_peak_thresh p h c = with_optarg h p (\<lambda>optarg.
     if \<not> uIsRealScalar optarg \<or> scalar_value optarg < 0
     then Inl (MexErr '''PeakThresh' must be a non-negative real.'')
     else Inr (h, c\<lparr>peak_thresh := scalar_value optarg\<rparr>))"
| "set_option opt_norm_thresh p h c = with_optarg h p (\<lambda>optarg.
     if \<not> uIsRealScalar optarg \<or> scalar_value optarg < 0
     then Inl (MexErr '''NormThresh' must be a non-negative real.'')
     else Inr (h, c\<lparr>norm_thresh := scalar_value optarg\<rparr>))"
| "set_option opt_frames p h c = with_optarg h p (\<lambda>optarg.
     if \<not> uIsRealMatrix optarg 4 (- 1)
     then Inl (MexErr '''Frames' must be a 4 x N matrix.x'')
     else
       let (h1, q) = mxDuplicateArray h optarg;
           n = mxGetN optarg;
           sorted = qsort (mx_data optarg) (nat n) 4 korder
       in Inr (h1[q := Some (optarg\<lparr>mx_data := sorted\<rparr>)],
               c\<lparr>ikeys_array := Some q, nikeys := n\<rparr>))"
| "set_option opt_orientations p h c = Inr (h, c\<lparr>force_orientations := True\<rparr>)"

text \<open>The \<^verbatim>\<open>while\<close> loop of line 144 over the options of the call, in their order.\<close>

fun parse_options :: "(option_code \<times> nat) list \<Rightarrow> store \<Rightarrow> config \<Rightarrow> mex_error + store \<times> config" where
  "parse_options [] h c = Inr (h, c)"
| "parse_options ((opt, p) # rest) h c =
     (case set_option opt p h c of
        Inl e \<Rightarrow> Inl e
      | Inr (h1, c1) \<Rightarrow> parse_options rest h1 c1)"

section \<open>The scale-space filter\<close>

text \<open>
  Modelled from the spec: the keypoint structure of \<^verbatim>\<open>vl/sift.h\<close>, which is not among
  the sources, with the fields the spec names and the driver reads: the octave and, as
  \<^verbatim>\<open>float\<close> values, the position and the scale.
\<close>

record VlSiftKeypoint =
  k_o :: int
  k_x :: real
  k_y :: real
  k_sigma :: real

text \<open>
  The filter is a parameter: a state type \<open>'f\<close> and the operations the driver calls.
  Creating the filter, stepping to an octave and running the detector change the filter;
  the others are queries of it, as in the contract the spec gives. The two stepping
  operations return the error code with the new filter, a code other than 0 says that
  no octave is left. The orientation query returns the angles it found, in the order in
  which it stores them, and the descriptor query the raw descriptor.
\<close>

record 'f VlSiftFilt_ops =
  vl_sift_new :: "int \<Rightarrow> int \<Rightarrow> int \<Rightarrow> int \<Rightarrow> int \<Rightarrow> 'f"
  vl_sift_set_peak_thresh :: "'f \<Rightarrow> real \<Rightarrow> 'f"
  vl_sift_set_edge_thresh :: "'f \<Rightarrow> real \<Rightarrow> 'f"
  vl_sift_set_norm_thresh :: "'f \<Rightarrow> real \<Rightarrow> 'f"
  vl_sift_process_first_octave :: "'f \<Rightarrow> real list \<Rightarrow> int \<times> 'f"
  vl_sift_process_next_octave :: "'f \<Rightarrow> int \<times> 'f"
  vl_sift_detect :: "'f \<Rightarrow> 'f"
  vl_sift_get_keypoints :: "'f \<Rightarrow> VlSiftKeypoint list"
  vl_sift_get_octave_index :: "'f \<Rightarrow> int"
  vl_sift_keypoint_init :: "'f \<Rightarrow> real \<Rightarrow> real \<Rightarrow> real \<Rightarrow> VlSiftKeypoint"
  vl_sift_calc_keypoint_orientations :: "'f \<Rightarrow> VlSiftKeypoint \<Rightarrow> real list"
  vl_sift_calc_keypoint_descriptor :: "'f \<Rightarrow> VlSiftKeypoint \<Rightarrow> real \<Rightarrow> real list"

section \<open>The output buffers\<close>

text \<open>
  The two buffers with the number of records written and the number reserved. A cell
  that was allocated and never written holds \<open>None\<close>; a null buffer is the empty list.
\<close>

record accum =
  nframes :: int
  reserved :: int
  frames :: "real option list"
  descr :: "8 word option list"

definition accum0 :: accum where
  "accum0 = \<lparr> nframes = 0, reserved = 0, frames = [], descr = [] \<rparr>"

text \<open>\<^verbatim>\<open>mxRealloc\<close> to \<open>n\<close> cells: the old contents stay, the new cells are not initialised.\<close>

definition mxRealloc :: "'a option list \<Rightarrow> int \<Rightarrow> 'a option list" where
  "mxRealloc buf n = take (nat n) buf @ replicate (nat n - length buf) None"

definition sizeof_double :: int where
  "sizeof_double = 8"

text \<open>Lines 338 to 344. The descriptor buffer holds bytes and is sized in bytes.\<close>

definition make_room :: "int \<Rightarrow> int \<Rightarrow> accum \<Rightarrow> accum" where
  "make_room nout nkeys a =
     (if reserved a < nframes a + 1 then
        let r = reserved a + 2 * nkeys
        in a\<lparr> reserved := r,
               frames := mxRealloc (frames a) (4 * r),
               descr := (if 1 < nout then mxRealloc (descr a) (128 * sizeof_double * r)
                         else descr a) \<rparr>
      else a)"

text \<open>Lines 348 to 351: the frame of a keypoint and an angle, in the MATLAB convention.\<close>

definition frame_of :: "VlSiftKeypoint \<Rightarrow> real \<Rightarrow> real list" where
  "frame_of k angle = [f_add (k_y k) 1, f_add (k_x k) 1, k_sigma k, d_sub (VL_PI / 2) angle]"

definition store_frame :: "real option list \<Rightarrow> int \<Rightarrow> real list \<Rightarrow> real option list" where
  "store_frame fr n rec =
     fr[nat (4 * n + 0) := Some (rec ! 0),
        nat (4 * n + 1) := Some (rec ! 1),
        nat (4 * n + 2) := Some (rec ! 2),
        nat (4 * n + 3) := Some (rec ! 3)]"

text \<open>
  The body of the loop over the orientations, lines 327 to 361. The local buffer
  \<^verbatim>\<open>rbuf\<close> is not initialised; the transpose overwrites all of it.
\<close>

definition fresh_buf :: "real list" where
  "fresh_buf = replicate 128 0"

definition descriptor_of :: "'f VlSiftFilt_ops \<Rightarrow> 'f \<Rightarrow> VlSiftKeypoint \<Rightarrow> real \<Rightarrow> real list" where
  "descriptor_of ops filt k angle =
     transpose_descriptor fresh_buf (vl_sift_calc_keypoint_descriptor ops filt k angle)"

definition save_orientation ::
  "'f VlSiftFilt_ops \<Rightarrow> int \<Rightarrow> int \<Rightarrow> 'f \<Rightarrow> VlSiftKeypoint \<Rightarrow> real \<Rightarrow> accum \<Rightarrow> accum" where
  "save_orientation ops nout nkeys filt k angle a =
     (let rbuf = (if 1 < nout then descriptor_of ops filt k angle else fresh_buf);
          a1 = make_room nout nkeys a;
          n = nframes a1
      in a1\<lparr> frames := store_frame (frames a1) n (frame_of k angle),
              descr := (if 1 < nout then store_descriptor (descr a1) n rbuf else descr a1),
              nframes := n + 1 \<rparr>)"

definition orientation_loop ::
  "'f VlSiftFilt_ops \<Rightarrow> int \<Rightarrow> int \<Rightarrow> 'f \<Rightarrow> VlSiftKeypoint \<Rightarrow> real list \<Rightarrow> accum \<Rightarrow> accum" where
  "orientation_loop ops nout nkeys filt k angles a =
     fold (save_orientation ops nout nkeys filt k) angles a"

section \<open>The loop over the keypoints of an octave\<close>

text \<open>Lines 300 to 303: the keypoint of the supplied frame \<open>i\<close>.\<close>

definition supplied_keypoint :: "'f VlSiftFilt_ops \<Rightarrow> 'f \<Rightarrow> real list \<Rightarrow> int \<Rightarrow> VlSiftKeypoint" where
  "supplied_keypoint ops filt ikeys i =
     vl_sift_keypoint_init ops filt
       (d_sub (ikeys ! nat (4 * i + 1)) 1)
       (d_sub (ikeys ! nat (4 * i + 0)) 1)
       (ikeys ! nat (4 * i + 2))"

text \<open>Lines 312 to 318: the angles of the supplied frame \<open>i\<close>.\<close>

definition supplied_angles ::
  "'f VlSiftFilt_ops \<Rightarrow> config \<Rightarrow> 'f \<Rightarrow> real list \<Rightarrow> int \<Rightarrow> VlSiftKeypoint \<Rightarrow> real list" where
  "supplied_angles ops cfg filt ikeys i k =
     (if force_orientations cfg then vl_sift_calc_keypoint_orientations ops filt k
      else [d_sub (VL_PI / 2) (ikeys ! nat (4 * i + 3))])"

text \<open>
  The \<^verbatim>\<open>for\<close> loop of line 292, from the cursor \<open>i\<close>; it returns the cursor with the
  buffers. The \<^verbatim>\<open>break\<close> of line 306 leaves the cursor where it is.
\<close>

function keypoint_loop ::
  "'f VlSiftFilt_ops \<Rightarrow> config \<Rightarrow> int \<Rightarrow> 'f \<Rightarrow> VlSiftKeypoint list \<Rightarrow> int \<Rightarrow> real list
     \<Rightarrow> int \<Rightarrow> accum \<Rightarrow> int \<times> accum" where
  "keypoint_loop ops cfg nout filt keys nkeys ikeys i a =
     (if i < nkeys then
        if 0 \<le> nikeys cfg then
          if k_o (supplied_keypoint ops filt ikeys i) \<noteq> vl_sift_get_octave_index ops filt
          then (i, a)
          else keypoint_loop ops cfg nout filt keys nkeys ikeys (i + 1)
                 (orientation_loop ops nout nkeys filt (supplied_keypoint ops filt ikeys i)
                    (supplied_angles ops cfg filt ikeys i (supplied_keypoint ops filt ikeys i)) a)
        else keypoint_loop ops cfg nout filt keys nkeys ikeys (i + 1)
               (orientation_loop ops nout nkeys filt (keys ! nat i)
                  (vl_sift_calc_keypoint_orientations ops filt (keys ! nat i)) a)
      else (i, a))"
  by pat_completeness auto
termination
  by (relation "measure (\<lambda>(ops, cfg, nout, filt, keys, nkeys, ikeys, i, a). nat (nkeys - i))") auto

declare keypoint_loop.simps [simp del]

section \<open>The loop over the octaves\<close>

text \<open>
  Lines 262 to 267: stepping the filter. Lines 277 to 289: choosing the keypoints of the
  octave; the result is the filter, the keypoints with their number, and the cursor.
\<close>

definition next_octave :: "'f VlSiftFilt_ops \<Rightarrow> real list \<Rightarrow> bool \<Rightarrow> 'f \<Rightarrow> int \<times> 'f" where
  "next_octave ops data first filt =
     (if first then vl_sift_process_first_octave ops filt data
      else vl_sift_process_next_octave ops filt)"

definition run_detector ::
  "'f VlSiftFilt_ops \<Rightarrow> config \<Rightarrow> 'f \<Rightarrow> int \<Rightarrow> 'f \<times> VlSiftKeypoint list \<times> int \<times> int" where
  "run_detector ops cfg filt i =
     (if nikeys cfg < 0 then
        let filt1 = vl_sift_detect ops filt;
            keys = vl_sift_get_keypoints ops filt1
        in (filt1, keys, int (length keys), 0)
      else (filt, [], nikeys cfg, i))"

text \<open>
  The \<^verbatim>\<open>while (true)\<close> loop of line 251. It ends when the filter says so; a run that
  never ends has no result.
\<close>

partial_function (option) octave_loop ::
  "'f VlSiftFilt_ops \<Rightarrow> config \<Rightarrow> int \<Rightarrow> real list \<Rightarrow> real list \<Rightarrow> bool \<Rightarrow> 'f \<Rightarrow> int \<Rightarrow> accum
     \<Rightarrow> ('f \<times> int \<times> accum) option" where
  "octave_loop ops cfg nout data ikeys first filt i a =
     (case next_octave ops data first filt of (err, filt1) \<Rightarrow>
        if err \<noteq> 0 then Some (filt1, i, a)
        else
          (case run_detector ops cfg filt1 i of (filt2, keys, nkeys, i1) \<Rightarrow>
             (case keypoint_loop ops cfg nout filt2 keys nkeys ikeys i1 a of (i2, a2) \<Rightarrow>
                octave_loop ops cfg nout data ikeys False filt2 i2 a2)))"

declare octave_loop.simps [code]

section \<open>The entry point\<close>

record 'a mxOut =
  out_class :: mxClassID
  out_dims :: "int list"
  out_data :: "'a option list"

record mex_out =
  OUT_FRAMES :: "real mxOut"
  OUT_DESCRIPTORS :: "8 word mxOut option"

text \<open>Lines 374 to 403: the buffers become the data of the output arrays.\<close>

definition save_back :: "int \<Rightarrow> accum \<Rightarrow> mex_out" where
  "save_back nout a =
     \<lparr> OUT_FRAMES = \<lparr> out_class = mxDOUBLE_CLASS, out_dims = [4, nframes a],
                      out_data = frames a \<rparr>,
       OUT_DESCRIPTORS =
         (if 1 < nout
          then Some \<lparr> out_class = mxUINT8_CLASS, out_dims = [128, nframes a],
                      out_data = descr a \<rparr>
          else None) \<rparr>"

text \<open>The cells of an output array that its dimensions show.\<close>

definition visible :: "'a mxOut \<Rightarrow> 'a option list" where
  "visible out = take (nat (prod_list (out_dims out))) (out_data out)"

text \<open>Lines 219 to 223: the filter with the thresholds that were given.\<close>

definition make_filter :: "'f VlSiftFilt_ops \<Rightarrow> int \<Rightarrow> int \<Rightarrow> config \<Rightarrow> 'f" where
  "make_filter ops M N cfg =
     (let filt = vl_sift_new ops M N (O_num cfg) (S_num cfg) (o_min cfg);
          filt1 = (if 0 \<le> peak_thresh cfg then vl_sift_set_peak_thresh ops filt (peak_thresh cfg) else filt);
          filt2 = (if 0 \<le> edge_thresh cfg then vl_sift_set_edge_thresh ops filt1 (edge_thresh cfg) else filt1)
      in if 0 \<le> norm_thresh cfg then vl_sift_set_norm_thresh ops filt2 (norm_thresh cfg) else filt2)"

text \<open>The sorted copy of the frames, read through \<^verbatim>\<open>ikeys\<close>; without frames the pointer is null.\<close>

definition ikeys_of :: "store \<Rightarrow> config \<Rightarrow> real list" where
  "ikeys_of h cfg =
     (case ikeys_array cfg of
        None \<Rightarrow> []
      | Some p \<Rightarrow> (case mx_at h p of None \<Rightarrow> [] | Some a \<Rightarrow> mx_data a))"

text \<open>Lines 211 to 411 for a parsed configuration.\<close>

definition do_job ::
  "'f VlSiftFilt_ops \<Rightarrow> int \<Rightarrow> mxArray \<Rightarrow> store \<Rightarrow> config \<Rightarrow> (store \<times> mex_out) option" where
  "do_job ops nout img h cfg =
     (case octave_loop ops cfg nout (mx_data img) (ikeys_of h cfg) True
             (make_filter ops (mxGetM img) (mxGetN img) cfg) 0 accum0 of
        None \<Rightarrow> None
      | Some (filt, i, a) \<Rightarrow>
          Some ((case ikeys_array cfg of None \<Rightarrow> h | Some p \<Rightarrow> mxDestroyArray h p),
                save_back nout a))"

text \<open>
  \<^verbatim>\<open>mexFunction\<close> for a call with \<open>nout\<close> outputs asked for, the image at \<open>in_I\<close> and the
  options \<open>opts\<close>. A call has the image argument, so the test of line 129 is passed.
  The result is \<open>None\<close> for a run that does not end, an error, or the store with the
  outputs.
\<close>

definition mexFunction ::
  "'f VlSiftFilt_ops \<Rightarrow> int \<Rightarrow> store \<Rightarrow> nat \<Rightarrow> (option_code \<times> nat) list
     \<Rightarrow> (mex_error + store \<times> mex_out) option" where
  "mexFunction ops nout h in_I opts =
     (if 2 < nout then Some (Inl (MexErr ''Too many output arguments.''))
      else
        (case mx_at h in_I of
           None \<Rightarrow> Some (Inl BadPointer)
         | Some img \<Rightarrow>
             if length (mx_dims img) \<noteq> 2 \<or> mx_class img \<noteq> mxSINGLE_CLASS
             then Some (Inl (MexErr ''I must be a matrix of class SINGLE''))
             else
               (case parse_options opts h config0 of
                  Inl e \<Rightarrow> Some (Inl e)
                | Inr (h1, cfg) \<Rightarrow> map_option Inr (do_job ops nout img h1 cfg))))"

section \<open>A small filter for the examples\<close>

text \<open>
  The examples below run the driver on a filter that keeps the number of octaves, the
  first and the current octave and the keypoints of the last detection. It has two
  octaves unless told otherwise, detects one keypoint in each octave, gives every
  keypoint two orientations, and places a supplied keypoint in the octave of the integer
  part of the base-2 logarithm of its scale.
\<close>

record toy_filt =
  t_O :: int
  t_o_min :: int
  t_o_cur :: int
  t_keys :: "VlSiftKeypoint list"

definition toy_ops :: "toy_filt VlSiftFilt_ops" where
  "toy_ops =
     \<lparr> vl_sift_new = (\<lambda>M N nO S omin.
         \<lparr> t_O = (if nO < 0 then 2 else nO), t_o_min = omin, t_o_cur = omin, t_keys = [] \<rparr>),
       vl_sift_set_peak_thresh = (\<lambda>f t. f),
       vl_sift_set_edge_thresh = (\<lambda>f t. f),
       vl_sift_set_norm_thresh = (\<lambda>f t. f),
       vl_sift_process_first_octave = (\<lambda>f data.
         if t_O f = 0 then (5, f) else (0, f\<lparr>t_o_cur := t_o_min f, t_keys := []\<rparr>)),
       vl_sift_process_next_octave = (\<lambda>f.
         if t_o_cur f = t_o_min f + t_O f - 1 then (5, f)
         else (0, f\<lparr>t_o_cur := t_o_cur f + 1, t_keys := []\<rparr>)),
       vl_sift_detect = (\<lambda>f.
         f\<lparr>t_keys := [\<lparr> k_o = t_o_cur f, k_x = 1, k_y = 2, k_sigma = pow2 (t_o_cur f) \<rparr>]\<rparr>),
       vl_sift_get_keypoints = t_keys,
       vl_sift_get_octave_index = t_o_cur,
       vl_sift_keypoint_init = (\<lambda>f x y sigma.
         \<lparr> k_o = ilog2 sigma, k_x = x, k_y = y, k_sigma = sigma \<rparr>),
       vl_sift_calc_keypoint_orientations = (\<lambda>f k. [0, 1]),
       vl_sift_calc_keypoint_descriptor = (\<lambda>f k angle.
         map (\<lambda>j. (real j + k_sigma k) / 512) [0..<128]) \<rparr>"

definition toy_image :: mxArray where
  "toy_image = \<lparr> mx_class = mxSINGLE_CLASS, mx_complex = False, mx_dims = [2, 2],
                 mx_data = [0, 0, 0, 0] \<rparr>"

definition mx_matrix :: "nat \<Rightarrow> nat \<Rightarrow> real list \<Rightarrow> mxArray" where
  "mx_matrix m n xs = \<lparr> mx_class = mxDOUBLE_CLASS, mx_complex = False, mx_dims = [m, n],
                        mx_data = xs \<rparr>"

section \<open>Auxiliary notions of the statements\<close>

text \<open>The source index of every cell of a transposed descriptor.\<close>

definition transpose_index :: "nat list" where
  "transpose_index = transpose_descriptor [0..<128] [0..<128]"

text \<open>The filter of the examples for a 2 x 2 image, and one of its keypoints.\<close>

definition toy_filt0 :: toy_filt where
  "toy_filt0 = vl_sift_new toy_ops 2 2 (- 1) 3 0"

definition toy_key :: VlSiftKeypoint where
  "toy_key = \<lparr> k_o = 0, k_x = 0, k_y = 0, k_sigma = 1 \<rparr>"

text \<open>The octave loop on the example filter in detection mode, with one output asked for.\<close>

definition toy_run :: "(toy_filt \<times> int \<times> accum) option" where
  "toy_run = octave_loop toy_ops config0 1 [0, 0, 0, 0] [] True toy_filt0 0 accum0"

text \<open>The part of the buffers that holds the frames.\<close>

definition geometry :: "accum \<Rightarrow> int \<times> int \<times> real option list" where
  "geometry a = (nframes a, reserved a, frames a)"

text \<open>What a call leaves apart from the descriptors: the store and the array of frames.\<close>

definition frames_output ::
  "(mex_error + store \<times> mex_out) option \<Rightarrow> (mex_error + store \<times> real mxOut) option" where
  "frames_output res = map_option (map_sum id (\<lambda>(h, out). (h, OUT_FRAMES out))) res"

text \<open>
  Modelled from the spec: the filter's contract that the scan is finite. The stepping
  operations, called one after the other with no detection in between, report that no
  octave is left at the latest at the \<open>n\<close>-th call.
\<close>

fun octaves_end :: "'f VlSiftFilt_ops \<Rightarrow> real list \<Rightarrow> nat \<Rightarrow> bool \<Rightarrow> 'f \<Rightarrow> bool" where
  "octaves_end ops data 0 first filt = False"
| "octaves_end ops data (Suc n) first filt =
     (case next_octave ops data first filt of
        (err, filt1) \<Rightarrow> if err \<noteq> 0 then True else octaves_end ops data n False filt1)"

text \<open>The outputs of a call that found no frame.\<close>

definition no_frames :: "int \<Rightarrow> mex_out" where
  "no_frames nout =
     \<lparr> OUT_FRAMES = \<lparr> out_class = mxDOUBLE_CLASS, out_dims = [4, 0], out_data = [] \<rparr>,
       OUT_DESCRIPTORS =
         (if 1 < nout
          then Some \<lparr> out_class = mxUINT8_CLASS, out_dims = [128, 0], out_data = [] \<rparr>
          else None) \<rparr>"

text \<open>
  The frames and the descriptor bytes of a list of oriented keypoints, each given with
  the filter state it was processed in: what the spec calls the geometry records and the
  descriptor records, one after the other.
\<close>

definition frame_records :: "('f \<times> VlSiftKeypoint \<times> real) list \<Rightarrow> real list" where
  "frame_records insts = concat (map (\<lambda>(filt, k, angle). frame_of k angle) insts)"

definition descriptor_records ::
  "'f VlSiftFilt_ops \<Rightarrow> ('f \<times> VlSiftKeypoint \<times> real) list \<Rightarrow> 8 word list" where
  "descriptor_records ops insts =
     concat (map (\<lambda>(filt, k, angle). map quantize (descriptor_of ops filt k angle)) insts)"

text \<open>
  The buffers hold the records of \<open>insts\<close>, in this order and at the front: as many
  records are counted as there are oriented keypoints, the buffers have the reserved
  size, and the counted part of each buffer is the sequence of the records.
\<close>

definition records_ok ::
  "'f VlSiftFilt_ops \<Rightarrow> int \<Rightarrow> accum \<Rightarrow> ('f \<times> VlSiftKeypoint \<times> real) list \<Rightarrow> bool" where
  "records_ok ops nout a insts \<longleftrightarrow>
     nframes a = int (length insts) \<and> nframes a \<le> reserved a \<and>
     length (frames a) = nat (4 * reserved a) \<and>
     take (4 * length insts) (frames a) = map Some (frame_records insts) \<and>
     (if 1 < nout
      then length (descr a) = nat (128 * sizeof_double * reserved a) \<and>
           take (128 * length insts) (descr a) = map Some (descriptor_records ops insts)
      else descr a = [])"

text \<open>
  The oriented keypoints of the supplied frames \<open>i, \<dots>, i' - 1\<close>, in this order, each
  frame once with its angles.
\<close>

definition supplied_instances ::
  "'f VlSiftFilt_ops \<Rightarrow> config \<Rightarrow> 'f \<Rightarrow> real list \<Rightarrow> int \<Rightarrow> int
     \<Rightarrow> ('f \<times> VlSiftKeypoint \<times> real) list" where
  "supplied_instances ops cfg filt ikeys i i' =
     concat (map (\<lambda>j. map (\<lambda>angle. (filt, supplied_keypoint ops filt ikeys j, angle))
                         (supplied_angles ops cfg filt ikeys j (supplied_keypoint ops filt ikeys j)))
               [i..i' - 1])"

text \<open>
  Three supplied frames with the scales 2, 1 and 3/2: sorted by scale they fall into the
  octaves 0, 0 and 1 of the example filter.
\<close>

definition toy_frames :: "real list" where
  "toy_frames = [1, 1, 2, 1,  2, 2, 1, 2,  3, 3, 3 / 2, 0]"

definition toy_sorted :: "real list" where
  "toy_sorted = qsort toy_frames 3 4 korder"

definition toy_cfg3 :: config where
  "toy_cfg3 = config0\<lparr>ikeys_array := Some 1, nikeys := 3\<rparr>"

text \<open>The example filter in its first and in its second octave.\<close>

definition toy_filt1 :: toy_filt where
  "toy_filt1 = snd (next_octave toy_ops [0, 0, 0, 0] True toy_filt0)"

definition toy_filt2 :: toy_filt where
  "toy_filt2 = snd (next_octave toy_ops [0, 0, 0, 0] False toy_filt1)"

text \<open>The two passes over the three frames.\<close>

definition toy_pass1 :: "int \<times> accum" where
  "toy_pass1 = keypoint_loop toy_ops toy_cfg3 1 toy_filt1 [] 3 toy_sorted 0 accum0"

definition toy_pass2 :: "int \<times> accum" where
  "toy_pass2 = keypoint_loop toy_ops toy_cfg3 1 toy_filt2 [] 3 toy_sorted (fst toy_pass1) (snd toy_pass1)"

section \<open>The rounding of the floating-point formats\<close>

lemma pow2_pos [simp]: "0 < pow2 e"
  by (simp add: pow2_def)

lemma pow2_nonzero [simp]: "pow2 e \<noteq> 0"
  by (simp add: pow2_def)

lemma pow2_ge0 [simp]: "0 \<le> pow2 e"
  by (simp add: pow2_def)

lemma pow2_nonneg: "0 \<le> e \<Longrightarrow> pow2 e = 2 ^ nat e"
  by (simp add: pow2_def)

lemma pow2_neg: "e \<le> 0 \<Longrightarrow> pow2 e = 1 / 2 ^ nat (- e)"
  by (simp add: pow2_def)

lemma ilog2_bounds:
  assumes "x \<noteq> 0"
  shows "pow2 (ilog2 x) \<le> \<bar>x\<bar> \<and> \<bar>x\<bar> < pow2 (ilog2 x + 1)"
proof (cases "1 \<le> \<bar>x\<bar>")
  case True
  let ?m = "\<lfloor>\<bar>x\<bar>\<rfloor>"
  from True have m: "0 < ?m" by linarith
  from bitlen_bounds [OF m]
  have lo: "2 ^ nat (bitlen ?m - 1) \<le> ?m" and hi: "?m < 2 ^ nat (bitlen ?m)" by simp_all
  from m have b: "1 \<le> bitlen ?m"
    by (simp add: bitlen_alt_def)
  from lo have "(2::real) ^ nat (bitlen ?m - 1) \<le> of_int ?m"
    by (metis of_int_le_iff of_int_numeral of_int_power)
  also have "\<dots> \<le> \<bar>x\<bar>" by linarith
  finally have 1: "pow2 (ilog2 x) \<le> \<bar>x\<bar>"
    using True b by (simp add: ilog2_def pow2_nonneg)
  from hi have "?m + 1 \<le> 2 ^ nat (bitlen ?m)" by simp
  then have "of_int (?m + 1) \<le> (2::real) ^ nat (bitlen ?m)"
    by (metis of_int_le_iff of_int_numeral of_int_power)
  moreover have "\<bar>x\<bar> < of_int (?m + 1)" by linarith
  ultimately have "\<bar>x\<bar> < 2 ^ nat (bitlen ?m)" by linarith
  moreover from b have "nat (bitlen ?m - 1 + 1) = nat (bitlen ?m)" by simp
  ultimately have 2: "\<bar>x\<bar> < pow2 (ilog2 x + 1)"
    using True b by (simp add: ilog2_def pow2_nonneg)
  from 1 2 show ?thesis ..
next
  case False
  let ?y = "1 / \<bar>x\<bar>"
  let ?c = "\<lceil>?y\<rceil>"
  let ?n = "bitlen (?c - 1)"
  from False assms have y: "1 < ?y" by simp
  then have c: "0 < ?c - 1" by linarith
  from bitlen_bounds [OF c]
  have lo: "2 ^ nat (?n - 1) \<le> ?c - 1" and hi: "?c - 1 < 2 ^ nat ?n" by simp_all
  from c have n: "1 \<le> ?n"
    by (simp add: bitlen_alt_def)
  from hi have "?c \<le> 2 ^ nat ?n" by simp
  then have "of_int ?c \<le> (2::real) ^ nat ?n"
    by (metis of_int_le_iff of_int_numeral of_int_power)
  moreover have "?y \<le> of_int ?c" by linarith
  ultimately have "?y \<le> 2 ^ nat ?n" by linarith
  with assms have "1 / 2 ^ nat ?n \<le> \<bar>x\<bar>"
    by (simp add: field_simps)
  then have 1: "pow2 (ilog2 x) \<le> \<bar>x\<bar>"
    using False n by (simp add: ilog2_def pow2_neg)
  from lo have "(2::real) ^ nat (?n - 1) \<le> of_int (?c - 1)"
    by (metis of_int_le_iff of_int_numeral of_int_power)
  moreover have "of_int (?c - 1) < ?y" by linarith
  ultimately have "2 ^ nat (?n - 1) < ?y" by linarith
  with assms have "\<bar>x\<bar> < 1 / 2 ^ nat (?n - 1)"
    by (simp add: field_simps)
  moreover from n have "nat (- (1 - ?n)) = nat (?n - 1)" by simp
  ultimately have 2: "\<bar>x\<bar> < pow2 (ilog2 x + 1)"
    using False n by (simp add: ilog2_def pow2_neg)
  from 1 2 show ?thesis ..
qed

lemma rne_error: "\<bar>of_int (rne x) - x\<bar> \<le> 1 / 2"
proof -
  have "of_int \<lfloor>x\<rfloor> \<le> x" and "x < of_int \<lfloor>x\<rfloor> + 1"
    by linarith+
  then show ?thesis
    by (auto simp: rne_def Let_def)
qed

lemma round_binary_error:
  "\<bar>round_binary p emin x - x\<bar> \<le> pow2 (max (ilog2 x) emin - (int p - 1)) / 2"
proof (cases "x = 0")
  case True
  then show ?thesis by (simp add: round_binary_def)
next
  case False
  let ?q = "pow2 (max (ilog2 x) emin - (int p - 1))"
  have q: "0 < ?q" by simp
  have "of_int (rne (x / ?q)) * ?q - x = (of_int (rne (x / ?q)) - x / ?q) * ?q"
    by (simp add: left_diff_distrib)
  then have "\<bar>of_int (rne (x / ?q)) * ?q - x\<bar> = \<bar>of_int (rne (x / ?q)) - x / ?q\<bar> * ?q"
    using q by (simp only: abs_mult abs_of_pos)
  also have "\<dots> \<le> 1 / 2 * ?q"
    by (intro mult_right_mono rne_error) simp
  finally show ?thesis
    using False by (simp add: round_binary_def Let_def)
qed

text \<open>
  Known values: the \<^verbatim>\<open>double\<close> and the \<^verbatim>\<open>float\<close> nearest to one tenth, two ties, which go
  to the even mantissa, and \<^verbatim>\<open>VL_PI / 2\<close>, which is a \<^verbatim>\<open>double\<close>.
\<close>

lemma rounding_examples:
  "to_double (1 / 10) = 3602879701896397 / 2 ^ 55"
  "to_float (1 / 10) = 13421773 / 2 ^ 27"
  "to_double (1 + 1 / 2 ^ 53) = 1"
  "to_double (1 + 3 / 2 ^ 53) = 1 + 1 / 2 ^ 51"
  "to_double (VL_PI / 2) = VL_PI / 2"
  by code_simp+

section \<open>The transpose\<close>

lemma upt_1_8: "[Suc 0..<8] = [1, 2, 3, 4, 5, 6, 7]"
  by (simp add: upt_rec)

lemma upt_0_4: "[0..<4] = [0, 1, 2, 3]"
  by (simp add: upt_rec)

lemma length_transpose_descriptor [simp]:
  "length (transpose_descriptor dst src) = length dst"
  by (simp add: transpose_descriptor_def transpose_row_def transpose_bins_def BO_def BP_def
      upt_1_8 upt_0_4)

lemma transpose_descriptor_map:
  assumes "length src = 128"
  shows "transpose_descriptor (map f dst) (map f src) = map f (transpose_descriptor dst src)"
  using assms
  by (simp add: transpose_descriptor_def transpose_row_def transpose_bins_def BO_def BP_def
      upt_1_8 upt_0_4 map_update)

lemma transpose_tagged:
  "transpose_descriptor (map Inl [0..<128]) (map Inr [0..<128])
     = map (Inr :: nat \<Rightarrow> nat + nat) transpose_index"
  by code_simp

lemma transpose_index_twice: "map ((!) transpose_index) transpose_index = [0..<128]"
  by code_simp

lemma transpose_index_bound: "\<forall>k \<in> set transpose_index. k < 128"
  by code_simp

lemma length_transpose_index: "length transpose_index = 128"
  by (simp add: transpose_index_def)

text \<open>
  The transpose commutes with a map over the cells, so its effect on any descriptor is
  read off from its effect on the indices, which is computed.
\<close>

lemma transpose_descriptor_eq:
  assumes src: "length src = 128" and dst: "length dst = 128"
  shows "transpose_descriptor dst src = map ((!) src) transpose_index"
proof -
  define h where "h = case_sum ((!) dst) ((!) src)"
  have "map h (map Inl [0..<128]) = map ((!) dst) [0..<length dst]"
    by (simp add: h_def dst)
  then have d: "dst = map h (map Inl [0..<128])"
    by (simp only: map_nth)
  have "map h (map Inr [0..<128]) = map ((!) src) [0..<length src]"
    by (simp add: h_def src)
  then have s: "src = map h (map Inr [0..<128])"
    by (simp only: map_nth)
  have "transpose_descriptor dst src
          = transpose_descriptor (map h (map Inl [0..<128])) (map h (map Inr [0..<128]))"
    using d s by metis
  also have "\<dots> = map h (transpose_descriptor (map Inl [0..<128]) (map Inr [0..<128]))"
    by (rule transpose_descriptor_map) simp
  also have "\<dots> = map ((!) src) transpose_index"
    by (simp add: transpose_tagged h_def)
  finally show ?thesis .
qed

text \<open>
  Claim C4. The descriptor transpose is an involution: for a descriptor \<open>d\<close> of 128
  values, transposing \<open>d\<close> into a buffer of 128 cells and transposing the result into
  a buffer of 128 cells gives \<open>d\<close> back, cell for cell, whatever the buffers held.
\<close>

theorem transpose_descriptor_involution:
  assumes "length d = 128" and "length buf1 = 128" and "length buf2 = 128"
  shows "transpose_descriptor buf2 (transpose_descriptor buf1 d) = d"
proof -
  have "transpose_descriptor buf2 (transpose_descriptor buf1 d)
          = map ((!) (map ((!) d) transpose_index)) transpose_index"
    using assms by (simp add: transpose_descriptor_eq length_transpose_index)
  also have "\<dots> = map (\<lambda>k. d ! (transpose_index ! k)) transpose_index"
    using transpose_index_bound by (simp add: length_transpose_index)
  also have "\<dots> = map ((!) d) (map ((!) transpose_index) transpose_index)"
    by simp
  also have "\<dots> = d"
    using assms(1) map_nth [of d] by (simp only: transpose_index_twice)
  finally show ?thesis .
qed

text \<open>The descriptor \<open>0, 1, \<dots>, 127\<close>, transposed twice through the local buffer.\<close>

theorem transpose_descriptor_involution_witness:
  "length (map real [0..<128]) = 128 \<and> length fresh_buf = 128 \<and>
   transpose_descriptor fresh_buf (transpose_descriptor fresh_buf (map real [0..<128]))
     = map real [0..<128]"
  using transpose_descriptor_involution [of "map real [0..<128]" fresh_buf fresh_buf]
  by (simp add: fresh_buf_def)

section \<open>The quantisation\<close>

lemma quantize_floor:
  assumes "0 \<le> v"
  shows "uint (quantize v) = min 255 \<lfloor>512 * v\<rfloor>"
proof (cases "512 * v < 255")
  case True
  from assms have nonneg: "0 \<le> \<lfloor>512 * v\<rfloor>" by simp
  from True have "\<lfloor>512 * v\<rfloor> < 255" by linarith
  with nonneg True assms show ?thesis
    by (simp add: quantize_def vl_uint8_of_double_def int_of_double_def uint_word_of_int)
next
  case False
  then have "255 \<le> \<lfloor>512 * v\<rfloor>" by linarith
  with False show ?thesis
    by (simp add: quantize_def vl_uint8_of_double_def int_of_double_def)
qed

lemma length_fold_update [simp]:
  "length (fold (\<lambda>j d. d[f j := g j]) js d) = length d"
  by (induction js arbitrary: d) auto

lemma length_store_descriptor [simp]:
  "length (store_descriptor buf n rbuf) = length buf"
  by (simp add: store_descriptor_def)

lemma fold_update_nth:
  assumes "k < m" and "0 \<le> b" and "nat b + m \<le> length d"
  shows "fold (\<lambda>j d. d[nat (b + int j) := g j]) [0..<m] d ! nat (b + int k) = g k"
  using assms
proof (induction m arbitrary: k)
  case 0
  then show ?case by simp
next
  case (Suc m)
  show ?case
  proof (cases "k = m")
    case True
    with Suc.prems show ?thesis by (simp add: nat_add_distrib)
  next
    case False
    with Suc.prems have "k < m" by simp
    with Suc.prems Suc.IH [of k] False show ?thesis
      by (simp add: nat_add_distrib)
  qed
qed

lemma store_descriptor_nth:
  assumes "j < 128" and "0 \<le> n" and "nat (128 * n) + 128 \<le> length buf"
  shows "store_descriptor buf n rbuf ! nat (128 * n + int j) = Some (quantize (rbuf ! j))"
  unfolding store_descriptor_def
  using assms by (intro fold_update_nth) auto

text \<open>
  Claim C1, as amended. The byte stored for a raw value \<open>v \<ge> 0\<close> is \<open>512 v\<close> cut to
  its integer part and clamped above at 255: the conversion truncates, it does not round
  to the nearest integer.
\<close>

theorem stored_byte_truncates:
  assumes "j < 128" and "0 \<le> n" and "nat (128 * n) + 128 \<le> length buf"
    and "0 \<le> rbuf ! j"
  shows "map_option uint (store_descriptor buf n rbuf ! nat (128 * n + int j))
           = Some (min 255 \<lfloor>512 * (rbuf ! j)\<rfloor>)"
  using assms by (simp add: store_descriptor_nth quantize_floor)

theorem stored_byte_truncates_witness:
  "(5::nat) < 128 \<and> (0::int) \<le> 0 \<and> nat (128 * 0) + 128 \<le> length (replicate 128 (None :: 8 word option)) \<and>
   0 \<le> replicate 128 (7 / 2048 :: real) ! 5 \<and>
   map_option uint (store_descriptor (replicate 128 None) 0 (replicate 128 (7 / 2048)) ! nat (128 * 0 + int 5))
     = Some 1"
  using stored_byte_truncates [of 5 0 "replicate 128 None" "replicate 128 (7 / 2048)"]
  by simp

text \<open>
  Claim C1 as stated fails: the raw value \<open>7 / 2048\<close> scales to \<open>1.75\<close>, which rounds to 2,
  and the byte stored is 1.
\<close>

theorem quantize_rounding_counterexample:
  "uint (quantize (7 / 2048)) = 1 \<and> min 255 (round (512 * (7 / 2048 :: real))) = 2"
  by (simp add: quantize_def vl_uint8_of_double_def int_of_double_def round_def)

section \<open>The angle of a supplied frame\<close>

text \<open>
  Claim C5, as amended. With the orientations not forced, the one angle derived from a
  supplied angle \<open>a\<close> is the double nearest to \<open>VL_PI / 2 - a\<close>, and the angle written to
  the frame is the double nearest to \<open>VL_PI / 2\<close> minus that. Where \<open>a\<close> is a double and
  \<open>VL_PI / 2 - a\<close> is one too, so that the first subtraction does not round, the derived
  angle is \<open>VL_PI / 2 - a\<close> and the angle written is \<open>a\<close>.
\<close>

theorem angle_round_trip:
  assumes "\<not> force_orientations cfg"
    and "to_double (ikeys ! nat (4 * i + 3)) = ikeys ! nat (4 * i + 3)"
    and "to_double (VL_PI / 2 - ikeys ! nat (4 * i + 3)) = VL_PI / 2 - ikeys ! nat (4 * i + 3)"
  shows "supplied_angles ops cfg filt ikeys i k = [VL_PI / 2 - ikeys ! nat (4 * i + 3)] \<and>
         frame_of k (hd (supplied_angles ops cfg filt ikeys i k)) ! 3 = ikeys ! nat (4 * i + 3)"
  using assms by (simp add: supplied_angles_def frame_of_def d_sub_def)

text \<open>The supplied angle 1: both subtractions are exact.\<close>

theorem angle_round_trip_witness:
  "\<not> force_orientations toy_cfg3 \<and>
   to_double ([1, 1, 1, 1] ! nat (4 * 0 + 3)) = [1, 1, 1, 1] ! nat (4 * 0 + 3) \<and>
   to_double (VL_PI / 2 - [1, 1, 1, 1] ! nat (4 * 0 + 3)) = VL_PI / 2 - [1, 1, 1, 1] ! nat (4 * 0 + 3) \<and>
   supplied_angles toy_ops toy_cfg3 toy_filt0 [1, 1, 1, 1] 0 toy_key = [VL_PI / 2 - 1] \<and>
   frame_of toy_key (hd (supplied_angles toy_ops toy_cfg3 toy_filt0 [1, 1, 1, 1] 0 toy_key)) ! 3 = 1"
proof -
  have 1: "\<not> force_orientations toy_cfg3"
    by (simp add: toy_cfg3_def config0_def)
  have 2: "to_double ([1, 1, 1, 1] ! nat (4 * 0 + 3)) = [1, 1, 1, 1] ! nat (4 * 0 + 3)"
    by code_simp
  have 3: "to_double (VL_PI / 2 - [1, 1, 1, 1] ! nat (4 * 0 + 3)) = VL_PI / 2 - [1, 1, 1, 1] ! nat (4 * 0 + 3)"
    by code_simp
  from angle_round_trip [OF 1 2 3, of toy_ops toy_filt0 toy_key] 1 2 3 show ?thesis
    by (elim conjE) simp
qed

text \<open>
  Claim C5 as stated fails: the supplied angle \<open>2\<^sup>-\<^sup>6\<^sup>0\<close>, a double, is lost in the first
  subtraction. The derived angle is \<open>VL_PI / 2\<close> and the angle written to the frame is 0,
  in the loop body and in the output of a whole run.
\<close>

theorem angle_round_trip_counterexample:
  "supplied_angles toy_ops toy_cfg3 toy_filt0 [1, 1, 1, 1 / 2 ^ 60] 0 toy_key = [VL_PI / 2] \<and>
   frame_of toy_key (VL_PI / 2) ! 3 = 0 \<and>
   visible (OUT_FRAMES (snd (projr (the
     (mexFunction toy_ops 1 [Some toy_image, Some (mx_matrix 4 1 [1, 1, 1, 1 / 2 ^ 60])] 0
        [(opt_frames, 1)])))))
     = [Some 1, Some 1, Some 1, Some 0]"
  by code_simp

section \<open>The option checks\<close>

lemma negative_octaves_rejected:
  assumes "mx_at h p = Some optarg" and "int_of_double (scalar_value optarg) < 0"
  shows "set_option opt_octaves p h c = Inl (MexErr '''Octaves' must be a positive integer.'')"
  using assms by (simp add: with_optarg_def)

lemma nonpositive_levels_rejected:
  assumes "mx_at h p = Some optarg" and "int_of_double (scalar_value optarg) < 1"
  shows "set_option opt_levels p h c = Inl (MexErr '''Levels' must be a positive integer.'')"
  using assms by (simp add: with_optarg_def)

text \<open>An error of the option loop is the result of the call, whatever the filter is.\<close>

lemma option_error_before_filter:
  assumes "parse_options opts h config0 = Inl e"
  shows "\<exists>e'. mexFunction ops nout h in_I opts = Some (Inl e')"
  using assms by (simp add: mexFunction_def split: option.splits)

text \<open>
  Claim C3. A value of \<^verbatim>\<open>Octaves\<close> strictly between \<open>-1\<close> and 1, the non-positive value
  0 among them, passes the check of line 152, which tests \<open>< 0\<close> on the truncated value
  where the check of \<^verbatim>\<open>Levels\<close> tests \<open>< 1\<close>: the configuration gets \<open>O = 0\<close> and the
  option loop goes on.
\<close>

theorem octaves_zero_accepted:
  assumes "mx_at h p = Some optarg" and "uIsRealScalar optarg"
    and "- 1 < scalar_value optarg" and "scalar_value optarg < 1"
  shows "set_option opt_octaves p h c = Inr (h, c\<lparr>O_num := 0\<rparr>)"
proof -
  from assms(3,4) have "int_of_double (scalar_value optarg) = 0"
    by (simp add: int_of_double_def) linarith
  with assms(1,2) show ?thesis
    by (simp add: with_optarg_def)
qed

text \<open>
  The call with a 2 x 2 image and \<^verbatim>\<open>Octaves\<close> 0: the filter is made with no octave and
  the run returns with no frame and no error.
\<close>

theorem octaves_zero_accepted_witness:
  "mx_at [Some toy_image, Some (mx_matrix 1 1 [0])] 1 = Some (mx_matrix 1 1 [0]) \<and>
   uIsRealScalar (mx_matrix 1 1 [0]) \<and>
   - 1 < scalar_value (mx_matrix 1 1 [0]) \<and> scalar_value (mx_matrix 1 1 [0]) < 1 \<and>
   set_option opt_octaves 1 [Some toy_image, Some (mx_matrix 1 1 [0])] config0
     = Inr ([Some toy_image, Some (mx_matrix 1 1 [0])], config0\<lparr>O_num := 0\<rparr>) \<and>
   mexFunction toy_ops 1 [Some toy_image, Some (mx_matrix 1 1 [0])] 0 [(opt_octaves, 1)]
     = Some (Inr ([Some toy_image, Some (mx_matrix 1 1 [0])], save_back 1 accum0))"
proof -
  have 1: "mx_at [Some toy_image, Some (mx_matrix 1 1 [0])] 1 = Some (mx_matrix 1 1 [0])"
    by (simp add: mx_at_def)
  have 2: "uIsRealScalar (mx_matrix 1 1 [0])"
    by (simp add: uIsRealScalar_def uIsRealMatrix_def mx_matrix_def mxGetM_def mxGetN_def)
  have 3: "- 1 < scalar_value (mx_matrix 1 1 [0])" and 4: "scalar_value (mx_matrix 1 1 [0]) < 1"
    by (simp_all add: scalar_value_def mx_matrix_def)
  have run: "mexFunction toy_ops 1 [Some toy_image, Some (mx_matrix 1 1 [0])] 0 [(opt_octaves, 1)]
     = Some (Inr ([Some toy_image, Some (mx_matrix 1 1 [0])], save_back 1 accum0))"
    by code_simp
  from octaves_zero_accepted [OF 1 2 3 4, of config0] 1 2 3 4 run show ?thesis
    by simp
qed

section \<open>The capacity of the buffers\<close>

lemma nframes_make_room [simp]: "nframes (make_room nout nkeys a) = nframes a"
  by (simp add: make_room_def Let_def)

lemma reserved_make_room:
  "reserved (make_room nout nkeys a)
     = (if reserved a < nframes a + 1 then reserved a + 2 * nkeys else reserved a)"
  by (simp add: make_room_def Let_def)

lemma nframes_save_orientation [simp]:
  "nframes (save_orientation ops nout nkeys filt k angle a) = nframes a + 1"
  by (simp add: save_orientation_def Let_def)

lemma reserved_save_orientation [simp]:
  "reserved (save_orientation ops nout nkeys filt k angle a) = reserved (make_room nout nkeys a)"
  by (simp add: save_orientation_def Let_def)

lemma make_room_capacity:
  assumes "nframes a \<le> reserved a" and "0 < nkeys"
  shows "nframes (make_room nout nkeys a) < reserved (make_room nout nkeys a)"
    and "reserved a \<le> reserved (make_room nout nkeys a)"
  using assms by (simp_all add: reserved_make_room)

lemma save_orientation_capacity:
  assumes "nframes a \<le> reserved a" and "0 < nkeys"
  shows "nframes (save_orientation ops nout nkeys filt k angle a)
           \<le> reserved (save_orientation ops nout nkeys filt k angle a)"
    and "reserved a \<le> reserved (save_orientation ops nout nkeys filt k angle a)"
  using make_room_capacity [OF assms, of nout] by simp_all

lemma orientation_loop_capacity:
  assumes "nframes a \<le> reserved a" and "0 < nkeys"
  shows "nframes (orientation_loop ops nout nkeys filt k angles a)
           \<le> reserved (orientation_loop ops nout nkeys filt k angles a) \<and>
         reserved a \<le> reserved (orientation_loop ops nout nkeys filt k angles a)"
  using assms(1)
proof (induction angles arbitrary: a)
  case Nil
  then show ?case by (simp add: orientation_loop_def)
next
  case (Cons angle angles)
  let ?a1 = "save_orientation ops nout nkeys filt k angle a"
  from save_orientation_capacity [OF Cons.prems assms(2)]
  have 1: "nframes ?a1 \<le> reserved ?a1" and 2: "reserved a \<le> reserved ?a1" .
  from Cons.IH [OF 1] 2 show ?case
    by (simp add: orientation_loop_def)
qed

lemmas orientation_loop_inv = orientation_loop_capacity [THEN conjunct1]
  and orientation_loop_mono = orientation_loop_capacity [THEN conjunct2]

lemma keypoint_loop_cursor:
  "i \<le> fst (keypoint_loop ops cfg nout filt keys nkeys ikeys i a)"
proof (induction ops cfg nout filt keys nkeys ikeys i a rule: keypoint_loop.induct)
  case (1 ops cfg nout filt keys nkeys ikeys i a)
  then show ?case
    by (subst keypoint_loop.simps) auto
qed

lemma keypoint_loop_capacity:
  assumes "nframes a \<le> reserved a" and "0 \<le> i"
  shows "nframes (snd (keypoint_loop ops cfg nout filt keys nkeys ikeys i a))
           \<le> reserved (snd (keypoint_loop ops cfg nout filt keys nkeys ikeys i a)) \<and>
         reserved a \<le> reserved (snd (keypoint_loop ops cfg nout filt keys nkeys ikeys i a))"
  using assms
proof (induction ops cfg nout filt keys nkeys ikeys i a rule: keypoint_loop.induct)
  case (1 ops cfg nout filt keys nkeys ikeys i a)
  show ?case
  proof (cases "i < nkeys")
    case False
    with "1.prems" show ?thesis
      by (subst (1 2 3) keypoint_loop.simps) simp
  next
    case True
    with "1.prems" have pos: "0 < nkeys" by simp
    show ?thesis
    proof (cases "0 \<le> nikeys cfg")
      case supplied: True
      show ?thesis
      proof (cases "k_o (supplied_keypoint ops filt ikeys i) \<noteq> vl_sift_get_octave_index ops filt")
        case True
        with \<open>i < nkeys\<close> supplied "1.prems" show ?thesis
          by (subst (1 2 3) keypoint_loop.simps) simp
      next
        case False
        let ?a1 = "orientation_loop ops nout nkeys filt (supplied_keypoint ops filt ikeys i)
                    (supplied_angles ops cfg filt ikeys i (supplied_keypoint ops filt ikeys i)) a"
        have a1: "nframes ?a1 \<le> reserved ?a1" and mono: "reserved a \<le> reserved ?a1"
          by (rule orientation_loop_inv [OF "1.prems"(1) pos],
              rule orientation_loop_mono [OF "1.prems"(1) pos])
        from "1.IH"(1) [OF \<open>i < nkeys\<close> supplied False a1] "1.prems"(2) mono
        show ?thesis
          using \<open>i < nkeys\<close> supplied False
          by (subst (1 2 3) keypoint_loop.simps) simp
      qed
    next
      case auto_mode: False
      let ?a1 = "orientation_loop ops nout nkeys filt (keys ! nat i)
                  (vl_sift_calc_keypoint_orientations ops filt (keys ! nat i)) a"
      have a1: "nframes ?a1 \<le> reserved ?a1" and mono: "reserved a \<le> reserved ?a1"
        by (rule orientation_loop_inv [OF "1.prems"(1) pos],
            rule orientation_loop_mono [OF "1.prems"(1) pos])
      from "1.IH"(2) [OF \<open>i < nkeys\<close> auto_mode a1] "1.prems"(2) mono
      show ?thesis
        using \<open>i < nkeys\<close> auto_mode
        by (subst (1 2 3) keypoint_loop.simps) simp
    qed
  qed
qed

lemma run_detector_cursor:
  assumes "run_detector ops cfg filt i = (filt2, keys, nkeys, i1)" and "0 \<le> i"
  shows "0 \<le> i1"
  using assms by (auto simp: run_detector_def Let_def split: if_splits)

lemma keypoint_loop_done:
  assumes "\<not> i < nkeys"
  shows "keypoint_loop ops cfg nout filt keys nkeys ikeys i a = (i, a)"
  using assms by (simp add: keypoint_loop.simps)

lemma run_detector_supplied:
  assumes "0 \<le> nikeys cfg"
  shows "run_detector ops cfg filt i = (filt, [], nikeys cfg, i)"
  using assms by (simp add: run_detector_def)

text \<open>Induction over the octaves of a run that ends.\<close>

lemma octave_loop_induct [consumes 1, case_names stop continue]:
  assumes run: "octave_loop ops cfg nout data ikeys first filt i a = Some r"
    and stop: "\<And>first filt i a err filt1.
      \<lbrakk>next_octave ops data first filt = (err, filt1); err \<noteq> 0\<rbrakk>
      \<Longrightarrow> P first filt i a (filt1, i, a)"
    and continue: "\<And>first filt i a filt1 filt2 keys nkeys i1 i2 a2 r.
      \<lbrakk>next_octave ops data first filt = (0, filt1);
       run_detector ops cfg filt1 i = (filt2, keys, nkeys, i1);
       keypoint_loop ops cfg nout filt2 keys nkeys ikeys i1 a = (i2, a2);
       octave_loop ops cfg nout data ikeys False filt2 i2 a2 = Some r;
       P False filt2 i2 a2 r\<rbrakk>
      \<Longrightarrow> P first filt i a r"
  shows "P first filt i a r"
proof -
  let ?Q = "\<lambda>ops' cfg' nout' data' ikeys' first filt i a r.
    ops' = ops \<and> cfg' = cfg \<and> nout' = nout \<and> data' = data \<and> ikeys' = ikeys \<longrightarrow>
    P first filt i a r \<and> octave_loop ops cfg nout data ikeys first filt i a = Some r"
  have "?Q ops cfg nout data ikeys first filt i a r"
  proof (rule octave_loop.raw_induct [where P = ?Q, OF _ run], intro impI, elim conjE)
    fix loop ops' cfg' nout' data' ikeys' first filt i a r
    assume IH: "\<And>ops' cfg' nout' data' ikeys' first filt i a r.
        loop ops' cfg' nout' data' ikeys' first filt i a = Some r
        \<Longrightarrow> ?Q ops' cfg' nout' data' ikeys' first filt i a r"
      and eq: "(case next_octave ops' data' first filt of
          (err, filt1) \<Rightarrow>
            if err \<noteq> 0 then Some (filt1, i, a)
            else case run_detector ops' cfg' filt1 i of
                 (filt2, keys, nkeys, i1) \<Rightarrow>
                   case keypoint_loop ops' cfg' nout' filt2 keys nkeys ikeys' i1 a of
                   (i2, a2) \<Rightarrow> loop ops' cfg' nout' data' ikeys' False filt2 i2 a2) = Some r"
      and same: "ops' = ops" "cfg' = cfg" "nout' = nout" "data' = data" "ikeys' = ikeys"
    obtain err filt1 where step: "next_octave ops data first filt = (err, filt1)"
      by (cases "next_octave ops data first filt")
    show "P first filt i a r \<and> octave_loop ops cfg nout data ikeys first filt i a = Some r"
    proof (cases "err \<noteq> 0")
      case True
      with eq step same have r: "r = (filt1, i, a)" by simp
      from stop [OF step True] r True step show ?thesis
        by (subst octave_loop.simps) simp
    next
      case False
      obtain filt2 keys nkeys i1 where det: "run_detector ops cfg filt1 i = (filt2, keys, nkeys, i1)"
        by (cases "run_detector ops cfg filt1 i") auto
      obtain i2 a2 where kl: "keypoint_loop ops cfg nout filt2 keys nkeys ikeys i1 a = (i2, a2)"
        by (cases "keypoint_loop ops cfg nout filt2 keys nkeys ikeys i1 a")
      from eq step False det kl same
      have "loop ops cfg nout data ikeys False filt2 i2 a2 = Some r" by simp
      from IH [OF this]
      have sub: "P False filt2 i2 a2 r"
        and run': "octave_loop ops cfg nout data ikeys False filt2 i2 a2 = Some r"
        by simp_all
      from False step have step0: "next_octave ops data first filt = (0, filt1)" by simp
      from continue [OF step0 det kl run' sub] run' step0 det kl show ?thesis
        by (subst octave_loop.simps) simp
    qed
  qed
  then show ?thesis by simp
qed

lemma octave_loop_capacity:
  assumes "octave_loop ops cfg nout data ikeys first filt i a = Some r"
    and "nframes a \<le> reserved a" and "0 \<le> i"
  shows "nframes (snd (snd r)) \<le> reserved (snd (snd r)) \<and> reserved a \<le> reserved (snd (snd r))"
  using assms
proof (induction rule: octave_loop_induct)
  case (stop first filt i a err filt1)
  then show ?case by simp
next
  case (continue first filt i a filt1 filt2 keys nkeys i1 i2 a2 r)
  from run_detector_cursor [OF continue(2) continue.prems(2)] have i1: "0 \<le> i1" .
  from keypoint_loop_capacity [OF continue.prems(1) i1, of ops cfg nout filt2 keys nkeys ikeys]
    continue(3)
  have a2: "nframes a2 \<le> reserved a2" and mono: "reserved a \<le> reserved a2"
    by simp_all
  from keypoint_loop_cursor [of i1 ops cfg nout filt2 keys nkeys ikeys a] continue(3) i1
  have i2: "0 \<le> i2" by simp
  from continue.IH [OF a2 i2] mono show ?case by simp
qed

text \<open>
  Claim C6. The number of records written never exceeds the number reserved, and the
  number reserved never decreases. The two numbers change in the body of the
  orientation loop only: the bound holds at the start, after the growth step (which runs
  with at least one keypoint in the octave and leaves room for one more record), after
  the record is counted, and therefore after the loop over the keypoints of an octave
  and at the end of the loop over the octaves; across each of these the number reserved
  does not decrease.
\<close>

theorem capacity_invariant:
  "nframes accum0 \<le> reserved accum0 \<and>
   (nframes a \<le> reserved a \<and> 0 < nkeys \<longrightarrow>
      nframes (make_room nout nkeys a) < reserved (make_room nout nkeys a) \<and>
      reserved a \<le> reserved (make_room nout nkeys a) \<and>
      nframes (save_orientation ops nout nkeys filt k angle a)
        \<le> reserved (save_orientation ops nout nkeys filt k angle a) \<and>
      reserved a \<le> reserved (save_orientation ops nout nkeys filt k angle a)) \<and>
   (nframes a \<le> reserved a \<and> 0 \<le> i \<longrightarrow>
      nframes (snd (keypoint_loop ops cfg nout filt keys nkeys ikeys i a))
        \<le> reserved (snd (keypoint_loop ops cfg nout filt keys nkeys ikeys i a)) \<and>
      reserved a \<le> reserved (snd (keypoint_loop ops cfg nout filt keys nkeys ikeys i a))) \<and>
   (nframes a \<le> reserved a \<and> 0 \<le> i \<and>
    octave_loop ops cfg nout data ikeys first filt i a = Some (filt', i', a') \<longrightarrow>
      nframes a' \<le> reserved a' \<and> reserved a \<le> reserved a')"
proof (intro conjI impI; (elim conjE)?)
  show "nframes accum0 \<le> reserved accum0"
    by (simp add: accum0_def)
next
  assume "nframes a \<le> reserved a" and "0 < nkeys"
  then show "nframes (make_room nout nkeys a) < reserved (make_room nout nkeys a)"
    and "reserved a \<le> reserved (make_room nout nkeys a)"
    and "nframes (save_orientation ops nout nkeys filt k angle a)
           \<le> reserved (save_orientation ops nout nkeys filt k angle a)"
    and "reserved a \<le> reserved (save_orientation ops nout nkeys filt k angle a)"
    by (simp_all add: reserved_make_room)
next
  assume "nframes a \<le> reserved a" and "0 \<le> i"
  then show "nframes (snd (keypoint_loop ops cfg nout filt keys nkeys ikeys i a))
           \<le> reserved (snd (keypoint_loop ops cfg nout filt keys nkeys ikeys i a))"
    and "reserved a \<le> reserved (snd (keypoint_loop ops cfg nout filt keys nkeys ikeys i a))"
    by (simp_all add: keypoint_loop_capacity)
next
  assume "nframes a \<le> reserved a" and "0 \<le> i"
    and "octave_loop ops cfg nout data ikeys first filt i a = Some (filt', i', a')"
  from octave_loop_capacity [OF this(3) this(1) this(2)]
  show "nframes a' \<le> reserved a'" and "reserved a \<le> reserved a'"
    by simp_all
qed

text \<open>
  A run of the example filter in detection mode: two octaves with one keypoint and two
  orientations each, four records in four reserved places.
\<close>

lemma toy_run_value:
  "toy_run = Some
     (\<lparr> t_O = 2, t_o_min = 0, t_o_cur = 1,
         t_keys = [\<lparr> k_o = 1, k_x = 1, k_y = 2, k_sigma = 2 \<rparr>] \<rparr>,
      1,
      \<lparr> nframes = 4, reserved = 4,
        frames =
          [Some 3, Some 2, Some 1, Some (884279719003555 / 562949953421312),
           Some 3, Some 2, Some 1, Some (321329765582243 / 562949953421312),
           Some 3, Some 2, Some 2, Some (884279719003555 / 562949953421312),
           Some 3, Some 2, Some 2, Some (321329765582243 / 562949953421312)],
        descr = [] \<rparr>)"
  by code_simp

theorem capacity_invariant_witness:
  "nframes accum0 \<le> reserved accum0 \<and> (0::int) < 1 \<and> (0::int) \<le> 0 \<and>
   toy_run = Some (fst (the toy_run), fst (snd (the toy_run)), snd (snd (the toy_run))) \<and>
   nframes (make_room 1 1 accum0) < reserved (make_room 1 1 accum0) \<and>
   nframes (snd (snd (the toy_run))) \<le> reserved (snd (snd (the toy_run))) \<and>
   reserved accum0 \<le> reserved (snd (snd (the toy_run))) \<and>
   nframes (snd (snd (the toy_run))) = 4 \<and> reserved (snd (snd (the toy_run))) = 4"
proof -
  have start: "nframes accum0 \<le> reserved accum0"
    by (simp add: accum0_def)
  have run: "toy_run = Some (fst (the toy_run), fst (snd (the toy_run)), snd (snd (the toy_run)))"
    by (simp add: toy_run_value)
  have count: "nframes (snd (snd (the toy_run))) = 4 \<and> reserved (snd (snd (the toy_run))) = 4"
    by (simp add: toy_run_value)
  have "nframes (make_room 1 1 accum0) < reserved (make_room 1 1 accum0) \<and>
        nframes (snd (snd (the toy_run))) \<le> reserved (snd (snd (the toy_run))) \<and>
        reserved accum0 \<le> reserved (snd (snd (the toy_run)))"
    using capacity_invariant [of accum0 1 1 toy_ops toy_filt0 toy_key 0 0 config0 "[]" "[]"
      "[0, 0, 0, 0]" True "fst (the toy_run)" "fst (snd (the toy_run))" "snd (snd (the toy_run))"]
      start run [unfolded toy_run_def]
    by (simp add: toy_run_def)
  with start run count show ?thesis
    by simp
qed

section \<open>The frames do not depend on the descriptors\<close>

lemma geometry_make_room:
  assumes "geometry a1 = geometry a2"
  shows "geometry (make_room n1 nkeys a1) = geometry (make_room n2 nkeys a2)"
  using assms by (simp add: geometry_def make_room_def Let_def)

lemma geometry_save_orientation:
  assumes "geometry a1 = geometry a2"
  shows "geometry (save_orientation ops n1 nkeys filt k angle a1)
           = geometry (save_orientation ops n2 nkeys filt k angle a2)"
  using geometry_make_room [OF assms, of n1 nkeys n2]
  by (simp add: geometry_def save_orientation_def Let_def)

lemma geometry_orientation_loop:
  assumes "geometry a1 = geometry a2"
  shows "geometry (orientation_loop ops n1 nkeys filt k angles a1)
           = geometry (orientation_loop ops n2 nkeys filt k angles a2)"
  using assms
proof (induction angles arbitrary: a1 a2)
  case Nil
  then show ?case by (simp add: orientation_loop_def)
next
  case (Cons angle angles)
  from Cons.IH [OF geometry_save_orientation [OF Cons.prems]] show ?case
    by (simp add: orientation_loop_def)
qed

lemma geometry_keypoint_loop:
  assumes "geometry a1 = geometry a2"
  shows "fst (keypoint_loop ops cfg n1 filt keys nkeys ikeys i a1)
           = fst (keypoint_loop ops cfg n2 filt keys nkeys ikeys i a2) \<and>
         geometry (snd (keypoint_loop ops cfg n1 filt keys nkeys ikeys i a1))
           = geometry (snd (keypoint_loop ops cfg n2 filt keys nkeys ikeys i a2))"
  using assms
proof (induction ops cfg n1 filt keys nkeys ikeys i a1 arbitrary: a2 rule: keypoint_loop.induct)
  case (1 ops cfg n1 filt keys nkeys ikeys i a1)
  note unfold = keypoint_loop.simps [of ops cfg _ filt keys nkeys ikeys i]
  show ?case
  proof (cases "i < nkeys")
    case False
    with "1.prems" show ?thesis by (simp add: unfold)
  next
    case True
    show ?thesis
    proof (cases "0 \<le> nikeys cfg")
      case supplied: True
      show ?thesis
      proof (cases "k_o (supplied_keypoint ops filt ikeys i) \<noteq> vl_sift_get_octave_index ops filt")
        case True
        with \<open>i < nkeys\<close> supplied "1.prems" show ?thesis by (simp add: unfold)
      next
        case False
        from "1.IH"(1) [OF \<open>i < nkeys\<close> supplied False geometry_orientation_loop [OF "1.prems"]]
        show ?thesis
          using \<open>i < nkeys\<close> supplied False by (simp add: unfold)
      qed
    next
      case auto_mode: False
      from "1.IH"(2) [OF \<open>i < nkeys\<close> auto_mode geometry_orientation_loop [OF "1.prems"]]
      show ?thesis
        using \<open>i < nkeys\<close> auto_mode by (simp add: unfold)
    qed
  qed
qed

lemma geometry_octave_loop_step:
  assumes "octave_loop ops cfg n1 data ikeys first filt i a1 = Some r"
    and "geometry a1 = geometry a2"
  shows "\<exists>a2'. octave_loop ops cfg n2 data ikeys first filt i a2 = Some (fst r, fst (snd r), a2') \<and>
               geometry a2' = geometry (snd (snd r))"
  using assms
proof (induction arbitrary: a2 rule: octave_loop_induct)
  case (stop first filt i a err filt1)
  then show ?case
    by (subst octave_loop.simps) simp
next
  case (continue first filt i a filt1 filt2 keys nkeys i1 i2 a3 r)
  obtain j b where kl: "keypoint_loop ops cfg n2 filt2 keys nkeys ikeys i1 a2 = (j, b)"
    by (cases "keypoint_loop ops cfg n2 filt2 keys nkeys ikeys i1 a2")
  from geometry_keypoint_loop [OF continue.prems, of ops cfg n1 filt2 keys nkeys ikeys i1 n2]
    continue(3) kl
  have j: "j = i2" and b: "geometry a3 = geometry b"
    by simp_all
  from continue.IH [OF b] obtain a2' where
    "octave_loop ops cfg n2 data ikeys False filt2 i2 b = Some (fst r, fst (snd r), a2')"
    and "geometry a2' = geometry (snd (snd r))"
    by blast
  with continue(1,2) kl j show ?case
    by (subst octave_loop.simps) simp
qed

lemma geometry_octave_loop:
  assumes "geometry a1 = geometry a2"
  shows "map_option (\<lambda>r. (fst r, fst (snd r), geometry (snd (snd r))))
           (octave_loop ops cfg n1 data ikeys first filt i a1)
         = map_option (\<lambda>r. (fst r, fst (snd r), geometry (snd (snd r))))
           (octave_loop ops cfg n2 data ikeys first filt i a2)"
proof (cases "octave_loop ops cfg n1 data ikeys first filt i a1")
  case (Some r)
  from geometry_octave_loop_step [OF Some assms, of n2] Some show ?thesis
    by auto
next
  case None
  show ?thesis
  proof (cases "octave_loop ops cfg n2 data ikeys first filt i a2")
    case (Some r)
    from geometry_octave_loop_step [OF Some assms [symmetric], of n1] None show ?thesis
      by auto
  next
    case n2: None
    with None show ?thesis by simp
  qed
qed

text \<open>
  Claim C9. A call with one output asked for and the call with two on the same store,
  image and options end alike: both do not return, or both raise the same error, or both
  return the same store and the same array of frames (dimensions and data). The
  descriptors are the only difference.
\<close>

theorem frames_independent_of_descriptors:
  "frames_output (mexFunction ops 1 h in_I opts) = frames_output (mexFunction ops 2 h in_I opts)"
proof -
  have job: "map_option (\<lambda>(h', out). (h', OUT_FRAMES out)) (do_job ops 1 img h1 cfg)
           = map_option (\<lambda>(h', out). (h', OUT_FRAMES out)) (do_job ops 2 img h1 cfg)"
    for img h1 cfg
  proof -
    let ?run = "\<lambda>n. octave_loop ops cfg n (mx_data img) (ikeys_of h1 cfg) True
        (make_filter ops (mxGetM img) (mxGetN img) cfg) 0 accum0"
    have eq: "map_option (\<lambda>r. (fst r, fst (snd r), geometry (snd (snd r)))) (?run 1)
            = map_option (\<lambda>r. (fst r, fst (snd r), geometry (snd (snd r)))) (?run 2)"
      by (rule geometry_octave_loop) simp
    show ?thesis
    proof (cases "?run 1")
      case None
      with eq have "?run 2 = None" by simp
      with None show ?thesis by (simp add: do_job_def)
    next
      case (Some r1)
      with eq obtain r2 where r2: "?run 2 = Some r2"
        and "geometry (snd (snd r1)) = geometry (snd (snd r2))"
        by (cases "?run 2") auto
      with Some show ?thesis
        by (cases r1; cases r2) (simp add: do_job_def save_back_def geometry_def)
    qed
  qed
  have lift: "frames_output (map_option Inr x1) = frames_output (map_option Inr x2)"
    if "map_option (\<lambda>(h', out). (h', OUT_FRAMES out)) x1
          = map_option (\<lambda>(h', out). (h', OUT_FRAMES out)) x2"
    for x1 x2 :: "(store \<times> mex_out) option"
    using that by (cases x1; cases x2) (auto simp: frames_output_def)
  show ?thesis
    by (auto simp: mexFunction_def lift [OF job] split: option.splits sum.splits)
qed

text \<open>
  One supplied frame: the frames of the call with two outputs, from those of the call
  with one.
\<close>

theorem frames_independent_of_descriptors_witness:
  "frames_output (mexFunction toy_ops 2 [Some toy_image, Some (mx_matrix 4 1 [3, 2, 1, 1])] 0
     [(opt_frames, 1)])
   = Some (Inr ([Some toy_image, Some (mx_matrix 4 1 [3, 2, 1, 1]), None],
        \<lparr> out_class = mxDOUBLE_CLASS, out_dims = [4, 1],
          out_data = [Some 3, Some 2, Some 1, Some 1, None, None, None, None] \<rparr>))"
proof -
  have "frames_output (mexFunction toy_ops 1 [Some toy_image, Some (mx_matrix 4 1 [3, 2, 1, 1])] 0
     [(opt_frames, 1)])
   = Some (Inr ([Some toy_image, Some (mx_matrix 4 1 [3, 2, 1, 1]), None],
        \<lparr> out_class = mxDOUBLE_CLASS, out_dims = [4, 1],
          out_data = [Some 3, Some 2, Some 1, Some 1, None, None, None, None] \<rparr>))"
    by code_simp
  with frames_independent_of_descriptors
    [of toy_ops "[Some toy_image, Some (mx_matrix 4 1 [3, 2, 1, 1])]" 0 "[(opt_frames, 1)]"]
  show ?thesis by simp
qed

section \<open>The records in the buffers\<close>

lemma take_fold_update:
  assumes "b + m \<le> length d"
  shows "take (b + m) (fold (\<lambda>j d. d[b + j := g j]) [0..<m] d) = take b d @ map g [0..<m]"
  using assms
proof (induction m)
  case 0
  then show ?case by simp
next
  case (Suc m)
  let ?d = "fold (\<lambda>j d. d[b + j := g j]) [0..<m] d"
  from Suc.prems have len: "b + m < length ?d" by simp
  have "take (b + Suc m) (?d[b + m := g m]) = take (b + m) (?d[b + m := g m]) @ [g m]"
    using len by (simp add: take_Suc_conv_app_nth)
  also have "take (b + m) (?d[b + m := g m]) = take (b + m) ?d"
    by simp
  also have "\<dots> = take b d @ map g [0..<m]"
    using Suc by simp
  finally show ?case by simp
qed

lemma map_nth_fun: "map (\<lambda>j. f (xs ! j)) [0..<length xs] = map f xs"
  by (rule nth_equalityI) simp_all

lemma take_store_descriptor:
  assumes "0 \<le> n" and "nat (128 * n) + 128 \<le> length buf" and "length rbuf = 128"
  shows "take (nat (128 * n) + 128) (store_descriptor buf n rbuf)
           = take (nat (128 * n)) buf @ map (\<lambda>v. Some (quantize v)) rbuf"
proof -
  have "store_descriptor buf n rbuf
          = fold (\<lambda>j d. d[nat (128 * n) + j := Some (quantize (rbuf ! j))]) [0..<128] buf"
    unfolding store_descriptor_def using assms(1)
    by (intro fold_cong refl) (simp add: nat_add_distrib)
  moreover have "map (\<lambda>j. Some (quantize (rbuf ! j))) [0..<128] = map (\<lambda>v. Some (quantize v)) rbuf"
    using map_nth_fun [of "\<lambda>v. Some (quantize v)" rbuf] assms(3) by simp
  ultimately show ?thesis
    using take_fold_update [of "nat (128 * n)" 128 buf "\<lambda>j. Some (quantize (rbuf ! j))"] assms(2)
    by simp
qed

lemma length_store_frame [simp]: "length (store_frame fr n rec) = length fr"
  by (simp add: store_frame_def)

lemma take_store_frame:
  assumes "0 \<le> n" and "nat (4 * n) + 4 \<le> length fr" and "length rec = 4"
  shows "take (nat (4 * n) + 4) (store_frame fr n rec) = take (nat (4 * n)) fr @ map Some rec"
proof -
  have "store_frame fr n rec = fold (\<lambda>j d. d[nat (4 * n) + j := Some (rec ! j)]) [0..<4] fr"
    using assms(1) by (simp add: store_frame_def upt_0_4 nat_add_distrib)
  moreover have "map (\<lambda>j. Some (rec ! j)) [0..<4] = map Some rec"
    using map_nth_fun [of Some rec] assms(3) by simp
  ultimately show ?thesis
    using take_fold_update [of "nat (4 * n)" 4 fr "\<lambda>j. Some (rec ! j)"] assms(2)
    by simp
qed

lemma length_mxRealloc [simp]: "length (mxRealloc buf n) = nat n"
  by (simp add: mxRealloc_def)

lemma take_mxRealloc:
  assumes "m \<le> length buf" and "m \<le> nat n"
  shows "take m (mxRealloc buf n) = take m buf"
  using assms by (simp add: mxRealloc_def min_def)

lemma length_frame_of [simp]: "length (frame_of k angle) = 4"
  by (simp add: frame_of_def)

lemma length_descriptor_of [simp]: "length (descriptor_of ops filt k angle) = 128"
  by (simp add: descriptor_of_def fresh_buf_def)

lemma length_frame_records [simp]: "length (frame_records insts) = 4 * length insts"
  by (induction insts) (auto simp: frame_records_def)

lemma length_descriptor_records [simp]:
  "length (descriptor_records ops insts) = 128 * length insts"
  by (induction insts) (auto simp: descriptor_records_def)

lemma frame_records_snoc:
  "frame_records (insts @ [(filt, k, angle)]) = frame_records insts @ frame_of k angle"
  by (simp add: frame_records_def)

lemma descriptor_records_snoc:
  "descriptor_records ops (insts @ [(filt, k, angle)])
     = descriptor_records ops insts @ map quantize (descriptor_of ops filt k angle)"
  by (simp add: descriptor_records_def)

lemma make_room_records:
  assumes "records_ok ops nout a insts" and "0 < nkeys"
  shows "records_ok ops nout (make_room nout nkeys a) insts"
    and "nframes (make_room nout nkeys a) < reserved (make_room nout nkeys a)"
proof -
  from assms(1) have n: "nframes a = int (length insts)" and cap: "nframes a \<le> reserved a"
    by (simp_all add: records_ok_def)
  from cap assms(2)
  show "nframes (make_room nout nkeys a) < reserved (make_room nout nkeys a)"
    by (simp add: reserved_make_room)
  show "records_ok ops nout (make_room nout nkeys a) insts"
  proof (cases "reserved a < nframes a + 1")
    case False
    with assms(1) show ?thesis by (simp add: make_room_def)
  next
    case True
    let ?r = "reserved a + 2 * nkeys"
    from n cap assms(2) have r: "int (length insts) \<le> ?r" by simp
    have fr: "take (4 * length insts) (mxRealloc (frames a) (4 * ?r))
                = take (4 * length insts) (frames a)"
      using assms(1) n cap r by (intro take_mxRealloc) (simp_all add: records_ok_def)
    have de: "take (128 * length insts) (mxRealloc (descr a) (128 * sizeof_double * ?r))
                = take (128 * length insts) (descr a)" if "1 < nout"
      using assms(1) n cap r that
      by (intro take_mxRealloc) (simp_all add: records_ok_def sizeof_double_def)
    from True assms(1) n cap r fr de show ?thesis
      by (simp add: make_room_def Let_def records_ok_def)
  qed
qed

lemma save_orientation_records:
  assumes "records_ok ops nout a insts" and "0 < nkeys"
  shows "records_ok ops nout (save_orientation ops nout nkeys filt k angle a)
           (insts @ [(filt, k, angle)])"
proof -
  let ?a1 = "make_room nout nkeys a"
  let ?n = "length insts"
  from make_room_records [OF assms]
  have ok: "records_ok ops nout ?a1 insts" and room: "nframes ?a1 < reserved ?a1" .
  from ok have n: "nframes ?a1 = int ?n"
    and len: "length (frames ?a1) = nat (4 * reserved ?a1)"
    and fr: "take (4 * ?n) (frames ?a1) = map Some (frame_records insts)"
    by (simp_all add: records_ok_def)
  have n4: "nat (4 * int ?n) = 4 * ?n" and n128: "nat (128 * int ?n) = 128 * ?n"
    by simp_all
  from room n len have "nat (4 * int ?n) + 4 \<le> length (frames ?a1)"
    by simp
  from take_store_frame [OF _ this, of "frame_of k angle"] fr
  have fr': "take (4 + 4 * ?n) (store_frame (frames ?a1) (int ?n) (frame_of k angle))
               = map Some (frame_records (insts @ [(filt, k, angle)]))"
    by (simp add: n4 frame_records_snoc add.commute)
  have de': "length (store_descriptor (descr ?a1) (int ?n) (descriptor_of ops filt k angle))
               = nat (128 * sizeof_double * reserved ?a1) \<and>
             take (128 + 128 * ?n)
               (store_descriptor (descr ?a1) (int ?n) (descriptor_of ops filt k angle))
               = map Some (descriptor_records ops (insts @ [(filt, k, angle)]))"
    if "1 < nout"
  proof -
    from ok that have dlen: "length (descr ?a1) = nat (128 * sizeof_double * reserved ?a1)"
      and de: "take (128 * ?n) (descr ?a1) = map Some (descriptor_records ops insts)"
      by (simp_all add: records_ok_def)
    from room n dlen have "nat (128 * int ?n) + 128 \<le> length (descr ?a1)"
      by (simp add: sizeof_double_def)
    from take_store_descriptor [OF _ this, of "descriptor_of ops filt k angle"] de dlen
    show ?thesis
      by (simp add: n128 descriptor_records_snoc add.commute)
  qed
  from ok have "\<not> 1 < nout \<Longrightarrow> descr ?a1 = []"
    by (simp add: records_ok_def)
  with n room len fr' de' show ?thesis
    by (simp add: save_orientation_def Let_def records_ok_def)
qed

lemma orientation_loop_records:
  assumes "records_ok ops nout a insts" and "0 < nkeys"
  shows "records_ok ops nout (orientation_loop ops nout nkeys filt k angles a)
           (insts @ map (\<lambda>angle. (filt, k, angle)) angles)"
  using assms(1)
proof (induction angles arbitrary: a insts)
  case Nil
  then show ?case by (simp add: orientation_loop_def)
next
  case (Cons angle angles)
  from Cons.IH [OF save_orientation_records [OF Cons.prems assms(2)], of filt k angle]
  show ?case by (simp add: orientation_loop_def)
qed



lemma records_ok_accum0: "records_ok ops nout accum0 []"
  by (simp add: records_ok_def accum0_def frame_records_def descriptor_records_def)



section \<open>The cursor into the supplied frames\<close>

lemma supplied_instances_empty [simp]: "supplied_instances ops cfg filt ikeys i i = []"
  by (simp add: supplied_instances_def)

lemma supplied_instances_first:
  assumes "i < i'"
  shows "supplied_instances ops cfg filt ikeys i i'
           = map (\<lambda>angle. (filt, supplied_keypoint ops filt ikeys i, angle))
               (supplied_angles ops cfg filt ikeys i (supplied_keypoint ops filt ikeys i))
             @ supplied_instances ops cfg filt ikeys (i + 1) i'"
  using assms by (simp add: supplied_instances_def upto_rec1 [of i "i' - 1"])

lemma supplied_pass:
  assumes "0 \<le> nikeys cfg" and "0 \<le> i" and "records_ok ops nout a insts"
    and "keypoint_loop ops cfg nout filt keys nkeys ikeys i a = (i', a')"
  shows "i \<le> i' \<and>
         (\<forall>j. i \<le> j \<and> j < i' \<longrightarrow>
            j < nkeys \<and>
            k_o (supplied_keypoint ops filt ikeys j) = vl_sift_get_octave_index ops filt) \<and>
         (i' < nkeys \<longrightarrow>
            k_o (supplied_keypoint ops filt ikeys i') \<noteq> vl_sift_get_octave_index ops filt) \<and>
         records_ok ops nout a' (insts @ supplied_instances ops cfg filt ikeys i i')"
  using assms
proof (induction ops cfg nout filt keys nkeys ikeys i a arbitrary: insts
    rule: keypoint_loop.induct)
  case (1 ops cfg nout filt keys nkeys ikeys i a)
  note unfold = keypoint_loop.simps [of ops cfg nout filt keys nkeys ikeys i a]
  show ?case
  proof (cases "i < nkeys \<and>
      k_o (supplied_keypoint ops filt ikeys i) = vl_sift_get_octave_index ops filt")
    case False
    with "1.prems" have "i' = i" and "a' = a"
      by (auto simp: unfold split: if_splits)
    with False "1.prems"(3) show ?thesis by auto
  next
    case True
    let ?k = "supplied_keypoint ops filt ikeys i"
    let ?a1 = "orientation_loop ops nout nkeys filt ?k (supplied_angles ops cfg filt ikeys i ?k) a"
    from True "1.prems"(2) have pos: "0 < nkeys" and nxt: "0 \<le> i + 1" by simp_all
    from True "1.prems"(1,4)
    have rest: "keypoint_loop ops cfg nout filt keys nkeys ikeys (i + 1) ?a1 = (i', a')"
      by (simp add: unfold)
    from True have "\<not> k_o ?k \<noteq> vl_sift_get_octave_index ops filt" by simp
    from "1.IH"(1) [OF _ "1.prems"(1) this "1.prems"(1) nxt
        orientation_loop_records [OF "1.prems"(3) pos] rest] True
    have le: "i + 1 \<le> i'"
      and matched: "\<forall>j. i + 1 \<le> j \<and> j < i' \<longrightarrow>
            j < nkeys \<and>
            k_o (supplied_keypoint ops filt ikeys j) = vl_sift_get_octave_index ops filt"
      and stopped: "i' < nkeys \<longrightarrow>
            k_o (supplied_keypoint ops filt ikeys i') \<noteq> vl_sift_get_octave_index ops filt"
      and ok: "records_ok ops nout a'
         ((insts @ map (\<lambda>angle. (filt, ?k, angle)) (supplied_angles ops cfg filt ikeys i ?k))
            @ supplied_instances ops cfg filt ikeys (i + 1) i')"
      by simp_all
    from le have "i < i'" by simp
    from ok supplied_instances_first [OF this, of ops cfg filt ikeys]
    have "records_ok ops nout a' (insts @ supplied_instances ops cfg filt ikeys i i')"
      by simp
    moreover have "j < nkeys \<and>
        k_o (supplied_keypoint ops filt ikeys j) = vl_sift_get_octave_index ops filt"
      if "i \<le> j" and "j < i'" for j
    proof (cases "j = i")
      case True
      with \<open>i < nkeys \<and> _\<close> show ?thesis by simp
    next
      case False
      with that matched show ?thesis by simp
    qed
    ultimately show ?thesis
      using le stopped by simp
  qed
qed

text \<open>
  Claim C2. One octave in supplied mode, the filter stepped without error: the frames
  from the cursor \<open>i\<close> up to the new cursor \<open>i'\<close> are those consumed, all of them lie in
  the current octave, and the frame at \<open>i'\<close>, if there is one, does not: the pass stopped
  there without going past it. The records added are those of the frames \<open>i, \<dots>, i' - 1\<close>,
  in this order and once each. The next octave starts from \<open>i'\<close>: the cursor is kept, not
  reset.
\<close>

theorem supplied_cursor:
  assumes "0 \<le> nikeys cfg" and "0 \<le> i" and "records_ok ops nout a insts"
    and "next_octave ops data first filt = (0, filt1)"
    and "keypoint_loop ops cfg nout filt1 [] (nikeys cfg) ikeys i a = (i', a')"
  shows "i \<le> i' \<and>
         (\<forall>j. i \<le> j \<and> j < i' \<longrightarrow>
            j < nikeys cfg \<and>
            k_o (supplied_keypoint ops filt1 ikeys j) = vl_sift_get_octave_index ops filt1) \<and>
         (i' < nikeys cfg \<longrightarrow>
            k_o (supplied_keypoint ops filt1 ikeys i') \<noteq> vl_sift_get_octave_index ops filt1) \<and>
         records_ok ops nout a' (insts @ supplied_instances ops cfg filt1 ikeys i i') \<and>
         octave_loop ops cfg nout data ikeys first filt i a
           = octave_loop ops cfg nout data ikeys False filt1 i' a'"
proof -
  have "octave_loop ops cfg nout data ikeys first filt i a
          = octave_loop ops cfg nout data ikeys False filt1 i' a'"
    using assms(1,4,5) by (subst octave_loop.simps) (simp add: run_detector_supplied)
  with supplied_pass [OF assms(1,2,3,5)] show ?thesis
    by simp
qed

text \<open>
  Three frames that fall, sorted, into the octaves 0, 0 and 1. The pass of octave 0
  starts at 0 and stops at 2, with two records; the pass of octave 1 starts at 2 and
  stops at 3, with one record more; then the filter has no octave left and the run ends
  with the cursor at 3 and the records of the frames 0, 1 and 2, once each.
\<close>

theorem supplied_cursor_witness:
  "0 \<le> nikeys toy_cfg3 \<and> (0::int) \<le> 0 \<and> records_ok toy_ops 1 accum0 [] \<and>
   next_octave toy_ops [0, 0, 0, 0] True toy_filt0 = (0, toy_filt1) \<and>
   keypoint_loop toy_ops toy_cfg3 1 toy_filt1 [] (nikeys toy_cfg3) toy_sorted 0 accum0 = toy_pass1 \<and>
   map (\<lambda>j. k_o (supplied_keypoint toy_ops toy_filt1 toy_sorted j)) [0, 1, 2] = [0, 0, 1] \<and>
   vl_sift_get_octave_index toy_ops toy_filt1 = 0 \<and>
   fst toy_pass1 = 2 \<and> nframes (snd toy_pass1) = 2 \<and>
   records_ok toy_ops 1 (snd toy_pass1)
     (supplied_instances toy_ops toy_cfg3 toy_filt1 toy_sorted 0 2) \<and>
   next_octave toy_ops [0, 0, 0, 0] False toy_filt1 = (0, toy_filt2) \<and>
   vl_sift_get_octave_index toy_ops toy_filt2 = 1 \<and>
   fst toy_pass2 = 3 \<and> nframes (snd toy_pass2) = 3 \<and>
   records_ok toy_ops 1 (snd toy_pass2)
     (supplied_instances toy_ops toy_cfg3 toy_filt1 toy_sorted 0 2 @
      supplied_instances toy_ops toy_cfg3 toy_filt2 toy_sorted 2 3) \<and>
   octave_loop toy_ops toy_cfg3 1 [0, 0, 0, 0] toy_sorted True toy_filt0 0 accum0
     = Some (toy_filt2, 3, snd toy_pass2)"
proof -
  have supplied: "0 \<le> nikeys toy_cfg3" and n: "nikeys toy_cfg3 = 3"
    by (simp_all add: toy_cfg3_def config0_def)
  have start: "records_ok toy_ops 1 accum0 []"
    by (rule records_ok_accum0)
  have step1: "next_octave toy_ops [0, 0, 0, 0] True toy_filt0 = (0, toy_filt1)"
    and step2: "next_octave toy_ops [0, 0, 0, 0] False toy_filt1 = (0, toy_filt2)"
    and step3: "next_octave toy_ops [0, 0, 0, 0] False toy_filt2 = (5, toy_filt2)"
    by code_simp+
  have octaves: "map (\<lambda>j. k_o (supplied_keypoint toy_ops toy_filt1 toy_sorted j)) [0, 1, 2] = [0, 0, 1]"
    "vl_sift_get_octave_index toy_ops toy_filt1 = 0" "vl_sift_get_octave_index toy_ops toy_filt2 = 1"
    by code_simp+
  have pass1: "keypoint_loop toy_ops toy_cfg3 1 toy_filt1 [] (nikeys toy_cfg3) toy_sorted 0 accum0
                 = (fst toy_pass1, snd toy_pass1)"
    by (simp add: toy_pass1_def n)
  have count1: "fst toy_pass1 = 2" "nframes (snd toy_pass1) = 2"
    by code_simp+
  from supplied_cursor [OF supplied _ start step1 pass1] count1
  have ok1: "records_ok toy_ops 1 (snd toy_pass1)
      ([] @ supplied_instances toy_ops toy_cfg3 toy_filt1 toy_sorted 0 2)"
    and loop1: "octave_loop toy_ops toy_cfg3 1 [0, 0, 0, 0] toy_sorted True toy_filt0 0 accum0
      = octave_loop toy_ops toy_cfg3 1 [0, 0, 0, 0] toy_sorted False toy_filt1 2 (snd toy_pass1)"
    by simp_all
  have pass2: "keypoint_loop toy_ops toy_cfg3 1 toy_filt2 [] (nikeys toy_cfg3) toy_sorted 2
                 (snd toy_pass1) = (fst toy_pass2, snd toy_pass2)"
    by (simp add: toy_pass2_def n count1)
  have count2: "fst toy_pass2 = 3" "nframes (snd toy_pass2) = 3"
    by code_simp+
  from supplied_cursor [OF supplied _ ok1 step2 pass2] count2
  have ok2: "records_ok toy_ops 1 (snd toy_pass2)
      (supplied_instances toy_ops toy_cfg3 toy_filt1 toy_sorted 0 2 @
       supplied_instances toy_ops toy_cfg3 toy_filt2 toy_sorted 2 3)"
    and loop2: "octave_loop toy_ops toy_cfg3 1 [0, 0, 0, 0] toy_sorted False toy_filt1 2 (snd toy_pass1)
      = octave_loop toy_ops toy_cfg3 1 [0, 0, 0, 0] toy_sorted False toy_filt2 3 (snd toy_pass2)"
    by simp_all
  have "octave_loop toy_ops toy_cfg3 1 [0, 0, 0, 0] toy_sorted False toy_filt2 3 (snd toy_pass2)
          = Some (toy_filt2, 3, snd toy_pass2)"
    using step3 by (subst octave_loop.simps) simp
  with loop1 loop2
  have run: "octave_loop toy_ops toy_cfg3 1 [0, 0, 0, 0] toy_sorted True toy_filt0 0 accum0
     = Some (toy_filt2, 3, snd toy_pass2)"
    by simp
  from supplied start step1 step2 octaves count1 count2 ok1 ok2 run show ?thesis
    by (simp add: toy_pass1_def n)
qed

section \<open>The store of the caller\<close>

text \<open>
  The cells of the store \<open>h0\<close> of the caller are a prefix of the store \<open>h\<close>, unchanged,
  and the copy of the frames, if there is one, lies behind them.
\<close>

lemma set_option_keeps:
  assumes "set_option opt p h c = Inr (h1, c1)"
    and "length h0 \<le> length h" and "take (length h0) h = h0"
    and "\<forall>q. ikeys_array c = Some q \<longrightarrow> length h0 \<le> q"
  shows "length h0 \<le> length h1 \<and> take (length h0) h1 = h0 \<and>
         (\<forall>q. ikeys_array c1 = Some q \<longrightarrow> length h0 \<le> q)"
proof (cases opt)
  case opt_frames
  with assms(1) obtain optarg where
    "h1 = (h @ [Some optarg])[length h := Some (optarg\<lparr>mx_data :=
        qsort (mx_data optarg) (nat (mxGetN optarg)) 4 korder\<rparr>)]"
    and "c1 = c\<lparr>ikeys_array := Some (length h), nikeys := mxGetN optarg\<rparr>"
    by (auto simp: with_optarg_def mxDuplicateArray_def Let_def
        split: option.splits if_splits)
  with assms(2,3) show ?thesis by simp
next
  case opt_octaves
  with assms show ?thesis
    by (auto simp: with_optarg_def split: option.splits if_splits)
next
  case opt_levels
  with assms show ?thesis
    by (auto simp: with_optarg_def split: option.splits if_splits)
next
  case opt_first_octave
  with assms show ?thesis
    by (auto simp: with_optarg_def split: option.splits if_splits)
next
  case opt_edge_thresh
  with assms show ?thesis
    by (auto simp: with_optarg_def split: option.splits if_splits)
next
  case opt_peak_thresh
  with assms show ?thesis
    by (auto simp: with_optarg_def split: option.splits if_splits)
next
  case opt_norm_thresh
  with assms show ?thesis
    by (auto simp: with_optarg_def split: option.splits if_splits)
next
  case opt_orientations
  with assms show ?thesis by auto
next
  case opt_verbose
  with assms show ?thesis by auto
qed

lemma parse_options_keeps:
  assumes "parse_options opts h c = Inr (h1, c1)"
    and "length h0 \<le> length h" and "take (length h0) h = h0"
    and "\<forall>q. ikeys_array c = Some q \<longrightarrow> length h0 \<le> q"
  shows "length h0 \<le> length h1 \<and> take (length h0) h1 = h0 \<and>
         (\<forall>q. ikeys_array c1 = Some q \<longrightarrow> length h0 \<le> q)"
  using assms
proof (induction opts arbitrary: h c)
  case Nil
  then show ?case by simp
next
  case (Cons x opts)
  obtain opt p where x: "x = (opt, p)" by (cases x)
  with Cons.prems(1) obtain h2 c2 where one: "set_option opt p h c = Inr (h2, c2)"
    and rest: "parse_options opts h2 c2 = Inr (h1, c1)"
    by (auto split: sum.splits)
  from set_option_keeps [OF one Cons.prems(2,3,4)] Cons.IH [OF rest] show ?case
    by blast
qed

text \<open>
  Claim C8. A call that returns leaves every array of the caller's store as it was, the
  list of frames among them: the sort works on a copy in a new cell, and the copy is
  what the run destroys at the end.
\<close>

theorem caller_store_unchanged:
  assumes "mexFunction ops nout h in_I opts = Some (Inr (h', out))"
  shows "length h \<le> length h' \<and> take (length h) h' = h"
proof -
  from assms obtain img h1 cfg where parse: "parse_options opts h config0 = Inr (h1, cfg)"
    and job: "do_job ops nout img h1 cfg = Some (h', out)"
    by (auto simp: mexFunction_def split: option.splits if_splits sum.splits)
  from parse_options_keeps [OF parse, of h]
  have keeps: "length h \<le> length h1" "take (length h) h1 = h"
    "\<forall>q. ikeys_array cfg = Some q \<longrightarrow> length h \<le> q"
    by (simp_all add: config0_def)
  from job have "h' = (case ikeys_array cfg of None \<Rightarrow> h1 | Some p \<Rightarrow> mxDestroyArray h1 p)"
    by (auto simp: do_job_def split: option.splits)
  with keeps show ?thesis
    by (auto simp: mxDestroyArray_def split: option.splits)
qed

text \<open>
  The three frames of the example, not sorted in the store of the caller: the run
  returns their records in the order of the scales, and the store still holds the list
  as it was given.
\<close>

theorem caller_store_unchanged_witness:
  "\<exists>h' out.
     mexFunction toy_ops 1 [Some toy_image, Some (mx_matrix 4 3 toy_frames)] 0 [(opt_frames, 1)]
       = Some (Inr (h', out)) \<and>
     visible (OUT_FRAMES out) = map Some [2, 2, 1, 2, 3, 3, 3 / 2, 0, 1, 1, 2, 1] \<and>
     length [Some toy_image, Some (mx_matrix 4 3 toy_frames)] \<le> length h' \<and>
     take (length [Some toy_image, Some (mx_matrix 4 3 toy_frames)]) h'
       = [Some toy_image, Some (mx_matrix 4 3 toy_frames)]"
proof -
  have "case mexFunction toy_ops 1 [Some toy_image, Some (mx_matrix 4 3 toy_frames)] 0
               [(opt_frames, 1)] of
          Some (Inr (h', out)) \<Rightarrow>
            visible (OUT_FRAMES out) = map Some [2, 2, 1, 2, 3, 3, 3 / 2, 0, 1, 1, 2, 1]
        | _ \<Rightarrow> False"
    by code_simp
  then obtain h' out where
    run: "mexFunction toy_ops 1 [Some toy_image, Some (mx_matrix 4 3 toy_frames)] 0
            [(opt_frames, 1)] = Some (Inr (h', out))"
    and frames: "visible (OUT_FRAMES out) = map Some [2, 2, 1, 2, 3, 3, 3 / 2, 0, 1, 1, 2, 1]"
    by (auto split: option.splits sum.splits)
  from caller_store_unchanged [OF run] run frames show ?thesis
    by blast
qed

section \<open>An empty list of frames\<close>

lemma octave_loop_no_frames:
  assumes "octaves_end ops data n first filt" and "nikeys cfg = 0"
  shows "\<exists>filt'. octave_loop ops cfg nout data ikeys first filt 0 a = Some (filt', 0, a)"
  using assms(1)
proof (induction n arbitrary: first filt)
  case 0
  then show ?case by simp
next
  case (Suc n)
  obtain err filt1 where step: "next_octave ops data first filt = (err, filt1)"
    by (cases "next_octave ops data first filt")
  show ?case
  proof (cases "err \<noteq> 0")
    case True
    with step show ?thesis
      by (subst octave_loop.simps) simp
  next
    case False
    with Suc.prems step have "octaves_end ops data n False filt1" by simp
    from Suc.IH [OF this] obtain filt' where
      "octave_loop ops cfg nout data ikeys False filt1 0 a = Some (filt', 0, a)" ..
    with step False assms(2) show ?thesis
      by (subst octave_loop.simps) (simp add: run_detector_supplied keypoint_loop_done)
  qed
qed

text \<open>In supplied mode the detector and its keypoints are never asked for.\<close>

lemma next_octave_detector [simp]:
  "next_octave (ops\<lparr>vl_sift_detect := d, vl_sift_get_keypoints := g\<rparr>) data first filt
     = next_octave ops data first filt"
  by (simp add: next_octave_def)

lemma save_orientation_detector [simp]:
  "save_orientation (ops\<lparr>vl_sift_detect := d, vl_sift_get_keypoints := g\<rparr>) nout nkeys filt k
     = save_orientation ops nout nkeys filt k"
  by (rule ext)+ (simp add: save_orientation_def descriptor_of_def)

lemma orientation_loop_detector [simp]:
  "orientation_loop (ops\<lparr>vl_sift_detect := d, vl_sift_get_keypoints := g\<rparr>) nout nkeys filt k
      angles b = orientation_loop ops nout nkeys filt k angles b"
  by (simp add: orientation_loop_def)

lemma supplied_keypoint_detector [simp]:
  "supplied_keypoint (ops\<lparr>vl_sift_detect := d, vl_sift_get_keypoints := g\<rparr>) filt ikeys i
     = supplied_keypoint ops filt ikeys i"
  by (simp add: supplied_keypoint_def)

lemma supplied_angles_detector [simp]:
  "supplied_angles (ops\<lparr>vl_sift_detect := d, vl_sift_get_keypoints := g\<rparr>) cfg filt ikeys i k
     = supplied_angles ops cfg filt ikeys i k"
  by (simp add: supplied_angles_def)

lemma keypoint_loop_supplied_keys:
  assumes "0 \<le> nikeys cfg"
  shows "keypoint_loop (ops\<lparr>vl_sift_detect := d, vl_sift_get_keypoints := g\<rparr>) cfg nout filt keys nkeys
           ikeys i a
         = keypoint_loop ops cfg nout filt keys' nkeys ikeys i a"
  using assms
proof (induction ops cfg nout filt keys nkeys ikeys i a rule: keypoint_loop.induct)
  case (1 ops cfg nout filt keys nkeys ikeys i a)
  show ?case
  proof (cases "i < nkeys \<and>
      k_o (supplied_keypoint ops filt ikeys i) = vl_sift_get_octave_index ops filt")
    case True
    with "1.IH"(1) "1.prems" show ?thesis
      by (subst (1 2) keypoint_loop.simps) simp
  next
    case False
    with "1.prems" show ?thesis
      by (subst (1 2) keypoint_loop.simps) auto
  qed
qed

lemma octave_loop_supplied_detector_step:
  assumes "octave_loop ops cfg nout data ikeys first filt i a = Some r" and "0 \<le> nikeys cfg"
  shows "octave_loop (ops\<lparr>vl_sift_detect := d, vl_sift_get_keypoints := g\<rparr>) cfg nout data ikeys
           first filt i a = Some r"
  using assms
proof (induction rule: octave_loop_induct)
  case (stop first filt i a err filt1)
  then show ?case
    by (subst octave_loop.simps) simp
next
  case (continue first filt i a filt1 filt2 keys nkeys i1 i2 a2 r)
  from continue(2) continue.prems have "filt2 = filt1" "nkeys = nikeys cfg" "i1 = i"
    by (simp_all add: run_detector_supplied)
  with continue show ?case
    by (subst octave_loop.simps)
      (simp add: run_detector_supplied
        keypoint_loop_supplied_keys [where keys = "[]" and keys' = keys])
qed

lemma make_filter_detector [simp]:
  "make_filter (ops\<lparr>vl_sift_detect := d, vl_sift_get_keypoints := g\<rparr>) M N cfg
     = make_filter ops M N cfg"
  by (simp add: make_filter_def Let_def)

lemma do_job_no_frames:
  assumes "octaves_end ops (mx_data img) n True (make_filter ops (mxGetM img) (mxGetN img) cfg)"
    and "nikeys cfg = 0"
  shows "do_job ops nout img hs cfg
           = Some (case ikeys_array cfg of None \<Rightarrow> hs | Some q \<Rightarrow> mxDestroyArray hs q,
                   no_frames nout)"
proof -
  from octave_loop_no_frames [OF assms] obtain filt' where
    "octave_loop ops cfg nout (mx_data img) (ikeys_of hs cfg) True
       (make_filter ops (mxGetM img) (mxGetN img) cfg) 0 accum0 = Some (filt', 0, accum0)"
    by blast
  then show ?thesis
    by (simp add: do_job_def save_back_def no_frames_def accum0_def)
qed

lemma do_job_no_frames_detector:
  assumes "octaves_end ops (mx_data img) n True (make_filter ops (mxGetM img) (mxGetN img) cfg)"
    and "nikeys cfg = 0"
  shows "do_job (ops\<lparr>vl_sift_detect := d, vl_sift_get_keypoints := g\<rparr>) nout img hs cfg
           = Some (case ikeys_array cfg of None \<Rightarrow> hs | Some q \<Rightarrow> mxDestroyArray hs q,
                   no_frames nout)"
proof -
  from octave_loop_no_frames [OF assms] obtain filt' where
    run: "octave_loop ops cfg nout (mx_data img) (ikeys_of hs cfg) True
       (make_filter ops (mxGetM img) (mxGetN img) cfg) 0 accum0 = Some (filt', 0, accum0)"
    by blast
  from assms(2) have "0 \<le> nikeys cfg" by simp
  from octave_loop_supplied_detector_step [OF run this, where d = d and g = g] show ?thesis
    by (simp add: do_job_def save_back_def no_frames_def accum0_def)
qed

text \<open>
  The option loop leaves \<open>nikeys = 0\<close> when the last \<^verbatim>\<open>Frames\<close> option of the call, among
  any other options before and after it, has an argument with no column: the options
  before it leave the arrays of the caller alone, the option itself takes the number of
  columns, and the options after it do not touch the frames.
\<close>

lemma parse_options_append:
  "parse_options (xs @ ys) h c =
     (case parse_options xs h c of Inl e \<Rightarrow> Inl e | Inr (h1, c1) \<Rightarrow> parse_options ys h1 c1)"
proof (induction xs arbitrary: h c)
  case Nil
  then show ?case by simp
next
  case (Cons x xs)
  then show ?case
    by (cases x) (simp split: sum.splits)
qed

lemma set_option_other:
  assumes "set_option opt p h c = Inr (h1, c1)" and "opt \<noteq> opt_frames"
  shows "nikeys c1 = nikeys c"
  using assms
  by (cases opt) (auto simp: with_optarg_def split: option.splits if_splits)

lemma parse_options_other:
  assumes "parse_options opts h c = Inr (h1, c1)" and "opt_frames \<notin> fst ` set opts"
  shows "nikeys c1 = nikeys c"
  using assms
proof (induction opts arbitrary: h c)
  case Nil
  then show ?case by simp
next
  case (Cons x opts)
  obtain opt p where x: "x = (opt, p)" by (cases x)
  with Cons.prems(1) obtain h2 c2 where one: "set_option opt p h c = Inr (h2, c2)"
    and rest: "parse_options opts h2 c2 = Inr (h1, c1)"
    by (auto split: sum.splits)
  from Cons.prems(2) x have "opt \<noteq> opt_frames" and "opt_frames \<notin> fst ` set opts"
    by auto
  with set_option_other [OF one] Cons.IH [OF rest] show ?case
    by simp
qed

lemma last_frames_option_empty:
  assumes "parse_options (pre @ (opt_frames, p) # post) h config0 = Inr (h1, cfg)"
    and "opt_frames \<notin> fst ` set post"
    and "mx_at h p = Some fr" and "mxGetN fr = 0"
  shows "nikeys cfg = 0"
proof -
  from assms(1) obtain h2 c2 h3 c3 where
    pre: "parse_options pre h config0 = Inr (h2, c2)"
    and one: "set_option opt_frames p h2 c2 = Inr (h3, c3)"
    and post: "parse_options post h3 c3 = Inr (h1, cfg)"
    by (auto simp: parse_options_append split: sum.splits)
  from parse_options_keeps [OF pre, of h]
  have "length h \<le> length h2" and "take (length h) h2 = h"
    by (simp_all add: config0_def)
  moreover from assms(3) have "p < length h"
    by (simp add: mx_at_def split: if_splits)
  ultimately have "mx_at h2 p = mx_at h p"
    by (metis mx_at_def nth_take order_less_le_trans)
  with one assms(3,4) have "nikeys c3 = 0"
    by (auto simp: with_optarg_def mxDuplicateArray_def Let_def split: if_splits)
  with parse_options_other [OF post assms(2)] show ?thesis
    by simp
qed

text \<open>
  Claim C10. A call with any options whose list of frames has no column, so that the
  option loop ends with \<open>nikeys = 0\<close>, on a filter whose scan is finite: the run is in
  supplied mode, it returns without an error, the copy of the list is destroyed, the
  array of frames has four rows and no column and so has the array of descriptors, with
  128 rows, when it is asked for. The detector is not called: the result is the same
  with any other detector in its place.
\<close>

theorem empty_frame_list:
  assumes "nout \<le> 2"
    and "mx_at h in_I = Some img" and "length (mx_dims img) = 2" and "mx_class img = mxSINGLE_CLASS"
    and "parse_options opts h config0 = Inr (h1, cfg)" and "nikeys cfg = 0"
    and "octaves_end ops (mx_data img) n True (make_filter ops (mxGetM img) (mxGetN img) cfg)"
  shows "mexFunction ops nout h in_I opts
           = Some (Inr (case ikeys_array cfg of None \<Rightarrow> h1 | Some q \<Rightarrow> mxDestroyArray h1 q,
                        no_frames nout)) \<and>
         mexFunction (ops\<lparr>vl_sift_detect := d, vl_sift_get_keypoints := g\<rparr>) nout h in_I opts
           = Some (Inr (case ikeys_array cfg of None \<Rightarrow> h1 | Some q \<Rightarrow> mxDestroyArray h1 q,
                        no_frames nout))"
  using assms(1-5)
    do_job_no_frames [OF assms(7,6), where hs = h1 and nout = nout]
    do_job_no_frames_detector [OF assms(7,6), where hs = h1 and d = d and g = g and nout = nout]
  by (simp add: mexFunction_def)

text \<open>
  The example filter with both outputs asked for and the options \<^verbatim>\<open>Levels\<close> 4, a 4 x 0
  list of frames and \<^verbatim>\<open>Orientations\<close>: the copy of the list, made in the cell 3 of the
  store, is destroyed and both arrays have no column.
\<close>

theorem empty_frame_list_witness:
  "(2::int) \<le> 2 \<and>
   mx_at [Some toy_image, Some (mx_matrix 4 0 []), Some (mx_matrix 1 1 [4])] 0 = Some toy_image \<and>
   length (mx_dims toy_image) = 2 \<and> mx_class toy_image = mxSINGLE_CLASS \<and>
   parse_options [(opt_levels, 2), (opt_frames, 1), (opt_orientations, 0)]
     [Some toy_image, Some (mx_matrix 4 0 []), Some (mx_matrix 1 1 [4])] config0
     = Inr ([Some toy_image, Some (mx_matrix 4 0 []), Some (mx_matrix 1 1 [4]),
             Some (mx_matrix 4 0 [])],
            config0\<lparr>S_num := 4, ikeys_array := Some 3, nikeys := 0,
                     force_orientations := True\<rparr>) \<and>
   nikeys (config0\<lparr>S_num := 4, ikeys_array := Some 3, nikeys := 0,
                     force_orientations := True\<rparr>) = 0 \<and>
   octaves_end toy_ops (mx_data toy_image) 3 True
     (make_filter toy_ops (mxGetM toy_image) (mxGetN toy_image)
        (config0\<lparr>S_num := 4, ikeys_array := Some 3, nikeys := 0,
                 force_orientations := True\<rparr>)) \<and>
   mexFunction toy_ops 2 [Some toy_image, Some (mx_matrix 4 0 []), Some (mx_matrix 1 1 [4])] 0
     [(opt_levels, 2), (opt_frames, 1), (opt_orientations, 0)]
     = Some (Inr ([Some toy_image, Some (mx_matrix 4 0 []), Some (mx_matrix 1 1 [4]), None],
                  no_frames 2))"
proof -
  let ?h = "[Some toy_image, Some (mx_matrix 4 0 []), Some (mx_matrix 1 1 [4])]"
  let ?cfg = "config0\<lparr>S_num := 4, ikeys_array := Some 3, nikeys := 0,
                       force_orientations := True\<rparr>"
  have 1: "(2::int) \<le> 2" by simp
  have 2: "mx_at ?h 0 = Some toy_image"
    by (simp add: mx_at_def)
  have 3: "length (mx_dims toy_image) = 2" and 4: "mx_class toy_image = mxSINGLE_CLASS"
    by (simp_all add: toy_image_def)
  have 5: "parse_options [(opt_levels, 2), (opt_frames, 1), (opt_orientations, 0)] ?h config0
             = Inr (?h @ [Some (mx_matrix 4 0 [])], ?cfg)"
    by code_simp
  have 6: "nikeys ?cfg = 0" by simp
  have 7: "octaves_end toy_ops (mx_data toy_image) 3 True
     (make_filter toy_ops (mxGetM toy_image) (mxGetN toy_image) ?cfg)"
    by code_simp
  from empty_frame_list [OF 1 2 3 4 5 6 7, of d g] 1 2 3 4 5 6 7 show ?thesis
    by (simp add: mxDestroyArray_def)
qed

end
